theory Spec2Isabelle
  imports Main
begin

section \<open>Runtime failures\<close>

text \<open>
  The Go runtime panics the code can raise: writing an entry of a nil map, slicing a
  string with bounds out of order, and calling a nil function value.
\<close>

datatype panic = NilMapWrite | SliceBounds | NilFuncCall

section \<open>Key codec\<close>

definition curlyStart :: char where
  "curlyStart = CHR ''{''"

definition curlyEnd :: char where
  "curlyEnd = CHR ''}''"

definition colon :: char where
  "colon = CHR '':''"

text \<open>
  \<open>writeKey\<close> appends to the buffer \<open>dst\<close>. \<open>mkKey\<close> takes a buffer from the pool; a
  pooled buffer is either new or was reset before it was put back, so it is empty.
\<close>

definition writeKey :: "string \<Rightarrow> string \<Rightarrow> string \<Rightarrow> string \<Rightarrow> string" where
  "writeKey dst kind key val = dst @ kind @ [curlyStart] @ key @ [colon] @ val @ [curlyEnd]"

definition mkKey :: "string \<Rightarrow> string \<Rightarrow> string \<Rightarrow> string" where
  "mkKey kind key val = writeKey [] kind key val"

text \<open>\<open>strings.IndexByte\<close>: the index of the first occurrence, or \<open>-1\<close>.\<close>

fun IndexByte :: "string \<Rightarrow> char \<Rightarrow> int" where
  "IndexByte [] c = -1"
| "IndexByte (x # xs) c =
     (if x = c then 0 else (let i = IndexByte xs c in if i < 0 then -1 else i + 1))"

text \<open>The slice expression \<open>s[lo:hi]\<close>; Go panics unless \<open>0 \<le> lo \<le> hi \<le> len(s)\<close>.\<close>

definition slice :: "string \<Rightarrow> int \<Rightarrow> int \<Rightarrow> panic + string" where
  "slice s lo hi =
     (if 0 \<le> lo \<and> lo \<le> hi \<and> hi \<le> int (length s)
      then Inr (take (nat (hi - lo)) (drop (nat lo) s))
      else Inl SliceBounds)"

text \<open>
  \<open>parseKey\<close> has named results, so an early return yields what was assigned so far
  with \<open>ok = false\<close>.
\<close>

definition parseKey :: "string \<Rightarrow> panic + (string \<times> string \<times> string \<times> bool)" where
  "parseKey key =
     (let endOfKind = IndexByte key curlyStart in
      if endOfKind < 0 then Inr ([], [], [], False)
      else case slice key 0 endOfKind of
        Inl p \<Rightarrow> Inl p
      | Inr kind \<Rightarrow>
          (let endOfKey = IndexByte key colon in
           if endOfKey < 0 then Inr (kind, [], [], False)
           else case slice key (endOfKind + 1) endOfKey of
             Inl p \<Rightarrow> Inl p
           | Inr k \<Rightarrow>
               (let endOfKeyVal = IndexByte key curlyEnd in
                if endOfKeyVal < 0 then Inr (kind, k, [], False)
                else case slice key (endOfKey + 1) endOfKeyVal of
                  Inl p \<Rightarrow> Inl p
                | Inr v \<Rightarrow> Inr (kind, k, v, True))))"

text \<open>A string in which none of the three delimiters occurs.\<close>

definition delimiter_free :: "string \<Rightarrow> bool" where
  "delimiter_free s \<longleftrightarrow> curlyStart \<notin> set s \<and> colon \<notin> set s \<and> curlyEnd \<notin> set s"

section \<open>Storage snapshot and transaction overlay\<close>

text \<open>
  A value of Go's \<open>interface{}\<close>: nil, or a boxed value. A \<open>map[string]struct{}\<close> is
  the set of its keys; a nil map of that type reads as the empty set. Every inner set
  the overlay writes to was made by \<open>make\<close> in the same transaction and filled by
  \<open>maps.Copy\<close>, so no write reaches a set of the origin: sets are values here.
\<close>

datatype 'v any = AnyNil | Any 'v

record 'v storage =
  tagToKeys :: "string \<Rightarrow> string set option"
  keyToTags :: "string \<Rightarrow> string set option"
  items :: "string \<Rightarrow> 'v any option"

definition emptyStorage :: "'v storage" where
  "emptyStorage = \<lparr>tagToKeys = Map.empty, keyToTags = Map.empty, items = Map.empty\<rparr>"

text \<open>Reading \<open>m[k]\<close> of a map of sets: a missing entry yields the nil (empty) set.\<close>

definition set_of :: "string set option \<Rightarrow> string set" where
  "set_of e = (case e of None \<Rightarrow> {} | Some S \<Rightarrow> S)"

record 'v transaction =
  origin :: "'v storage"
  additions :: "'v storage"
  deletions :: "'v storage"

text \<open>
  The field \<open>t\<close> of \<open>db\<close> is \<open>tx\<close> here. \<open>Update\<close> replaces nil overlay maps by empty ones
  before the callback runs, so the overlay's outer maps are modelled as always allocated.
\<close>

record 'v db =
  storage :: "'v storage"
  tx :: "'v transaction"

definition NewDB :: "'v db" where
  "NewDB = \<lparr>storage = emptyStorage,
            tx = \<lparr>origin = emptyStorage, additions = emptyStorage, deletions = emptyStorage\<rparr>\<rparr>"

subsection \<open>The read-only view of the live snapshot\<close>

definition cacheView_Get :: "'v storage \<Rightarrow> string \<Rightarrow> 'v any \<times> bool" where
  "cacheView_Get c key = (case items c key of None \<Rightarrow> (AnyNil, False) | Some val \<Rightarrow> (val, True))"

text \<open>
  The body of a \<open>for k := range keys\<close> loop that calls \<open>fn\<close> with the key and a lazy
  getter and breaks when \<open>fn\<close> returns false. The callback's own state is \<open>'w\<close>.
\<close>

fun visit_loop ::
  "(string \<Rightarrow> 'v any \<times> bool) \<Rightarrow> (string \<Rightarrow> (unit \<Rightarrow> 'v any \<times> bool) \<Rightarrow> 'w \<Rightarrow> bool \<times> 'w) \<Rightarrow>
   string list \<Rightarrow> 'w \<Rightarrow> 'w" where
  "visit_loop get fn [] w = w"
| "visit_loop get fn (k # ks) w =
     (case fn k (\<lambda>_. get k) w of
        (proceed, w') \<Rightarrow> if proceed then visit_loop get fn ks w' else w')"

text \<open>
  Go leaves the order of \<open>range\<close> over a map unspecified. Where the order can be
  observed, the model takes it from \<open>rng\<close>, which lists the keys of the set it is given.
\<close>

definition cacheView_Iter ::
  "(string set \<Rightarrow> string list) \<Rightarrow> 'v storage \<Rightarrow> string \<Rightarrow>
   (string \<Rightarrow> (unit \<Rightarrow> 'v any \<times> bool) \<Rightarrow> 'w \<Rightarrow> bool \<times> 'w) \<Rightarrow> 'w \<Rightarrow> 'w" where
  "cacheView_Iter rng c tag fn w =
     (case tagToKeys c tag of
        None \<Rightarrow> w
      | Some keys \<Rightarrow> visit_loop (cacheView_Get c) fn (rng keys) w)"

subsection \<open>The writer: operations of the transaction overlay\<close>

text \<open>
  \<open>Tag\<close>, first part: the key's tag set is copied from the origin into the additions
  unless the additions already hold one.
\<close>

definition Tag_init :: "'v transaction \<Rightarrow> string \<Rightarrow> 'v transaction" where
  "Tag_init c key =
     (if key \<in> dom (keyToTags (additions c)) then c
      else c\<lparr>additions := (additions c)
             \<lparr>keyToTags := (keyToTags (additions c))(key \<mapsto> set_of (keyToTags (origin c) key))\<rparr>\<rparr>)"

text \<open>\<open>Tag\<close>, the body of the loop over \<open>tags\<close>.\<close>

definition Tag_step :: "string \<Rightarrow> string \<Rightarrow> 'v transaction \<Rightarrow> 'v transaction" where
  "Tag_step key tag c =
     (let a = additions c;
          ttk = (if tag \<in> dom (tagToKeys a) then tagToKeys a
                 else (tagToKeys a)(tag \<mapsto> set_of (tagToKeys (origin c) tag)));
          ttk' = ttk(tag \<mapsto> insert key (set_of (ttk tag)));
          ktt' = (keyToTags a)(key \<mapsto> insert tag (set_of (keyToTags a key)))
      in c\<lparr>additions := a\<lparr>tagToKeys := ttk', keyToTags := ktt'\<rparr>\<rparr>)"

definition Tag :: "'v transaction \<Rightarrow> string \<Rightarrow> string list \<Rightarrow> 'v transaction" where
  "Tag c key tags = fold (Tag_step key) tags (Tag_init c key)"

text \<open>
  \<open>transaction.Get\<close>. The results \<open>val\<close> and \<open>ok\<close> are named: the lookup in the
  deletions assigns \<open>ok\<close>, and the final bare \<open>return\<close> yields that \<open>ok\<close> with the nil \<open>val\<close>
  left by the lookup in the additions.
\<close>

definition transaction_Get :: "'v transaction \<Rightarrow> string \<Rightarrow> 'v any \<times> bool" where
  "transaction_Get c key =
     (case items (additions c) key of
        Some val \<Rightarrow> (val, True)
      | None \<Rightarrow>
          (case items (origin c) key of
             None \<Rightarrow> (AnyNil, False)
           | Some originVal \<Rightarrow>
               if key \<in> dom (items (deletions c)) then (AnyNil, True) else (originVal, True)))"

definition Put :: "'v transaction \<Rightarrow> string \<Rightarrow> 'v any \<Rightarrow> 'v transaction" where
  "Put c key val = c\<lparr>additions := (additions c)\<lparr>items := (items (additions c))(key \<mapsto> val)\<rparr>\<rparr>"

text \<open>
  \<open>deleteKey\<close>. Its loop ranges over the key's tags; an iteration reads and writes only
  the entries of its own tag, so the loop is written as one update of all tags that are
  not yet marked deleted. \<open>delete\<close> on the missing (nil) set of a tag does nothing.
\<close>

definition deleteKey :: "'v transaction \<Rightarrow> string \<Rightarrow> 'v transaction" where
  "deleteKey c key =
     (let a = additions c;
          d = deletions c;
          tags = (case keyToTags a key of
                    Some ts \<Rightarrow> ts
                  | None \<Rightarrow> set_of (keyToTags (origin c) key));
          touched = tags - dom (tagToKeys d)
      in c\<lparr>additions := a
             \<lparr>items := (items a)(key := None),
              tagToKeys := (\<lambda>tag. if tag \<in> touched
                                   then map_option (\<lambda>ks. ks - {key}) (tagToKeys a tag)
                                   else tagToKeys a tag)\<rparr>,
           deletions := d
             \<lparr>items := (items d)(key \<mapsto> AnyNil),
              tagToKeys := (\<lambda>tag. if tag \<in> touched then Some {} else tagToKeys d tag)\<rparr>\<rparr>)"

text \<open>\<open>append\<close> unless \<open>slices.Contains\<close>.\<close>

definition add_deleted :: "string list \<Rightarrow> string \<Rightarrow> string list" where
  "add_deleted deleted k = (if k \<in> set deleted then deleted else deleted @ [k])"

text \<open>The body of the loop of \<open>Invalidate\<close> over \<open>tags\<close>, on the overlay and the result list.\<close>

definition Invalidate_step ::
  "(string set \<Rightarrow> string list) \<Rightarrow> string \<Rightarrow> 'v transaction \<times> string list \<Rightarrow>
   'v transaction \<times> string list" where
  "Invalidate_step rng tag st =
     (case st of (c, deleted) \<Rightarrow>
        if tag \<in> dom (tagToKeys (deletions c)) then (c, deleted)
        else
          (case (case tagToKeys (additions c) tag of
                   Some ks \<Rightarrow> Some ks
                 | None \<Rightarrow> tagToKeys (origin c) tag) of
             None \<Rightarrow> (c, deleted)
           | Some keys \<Rightarrow>
               (let c1 = c\<lparr>additions := (additions c)
                            \<lparr>tagToKeys := (tagToKeys (additions c))(tag := None)\<rparr>,
                          deletions := (deletions c)
                            \<lparr>tagToKeys := (tagToKeys (deletions c))(tag \<mapsto> {})\<rparr>\<rparr>;
                    st2 = fold (\<lambda>k (c', del). (deleteKey c' k, add_deleted del k))
                            (rng keys) (c1, deleted)
                in (deleteKey (fst st2) tag, add_deleted (snd st2) tag))))"

definition Invalidate ::
  "(string set \<Rightarrow> string list) \<Rightarrow> 'v transaction \<Rightarrow> string list \<Rightarrow>
   'v transaction \<times> string list" where
  "Invalidate rng c tags = fold (Invalidate_step rng) tags (c, [])"

text \<open>
  \<open>transaction.Iter\<close>. \<open>keys\<close> is declared and never made, so it is a nil map and
  \<open>maps.Copy\<close> into it panics as soon as the source has an entry. The loop ranges over the
  additions' set for the tag and tests \<open>ok\<close> (whether the additions have the tag).
\<close>

fun Iter_loop ::
  "(string \<Rightarrow> 'v any \<times> bool) \<Rightarrow> bool \<Rightarrow>
   (string \<Rightarrow> (unit \<Rightarrow> 'v any \<times> bool) \<Rightarrow> 'w \<Rightarrow> bool \<times> 'w) \<Rightarrow> string list \<Rightarrow> 'w \<Rightarrow> 'w" where
  "Iter_loop get ok fn [] w = w"
| "Iter_loop get ok fn (k # ks) w =
     (if ok then Iter_loop get ok fn ks w
      else (case fn k (\<lambda>_. get k) w of
              (proceed, w') \<Rightarrow> if proceed then Iter_loop get ok fn ks w' else w'))"

definition transaction_Iter ::
  "(string set \<Rightarrow> string list) \<Rightarrow> 'v transaction \<Rightarrow> string \<Rightarrow>
   (string \<Rightarrow> (unit \<Rightarrow> 'v any \<times> bool) \<Rightarrow> 'w \<Rightarrow> bool \<times> 'w) \<Rightarrow> 'w \<Rightarrow> panic + 'w" where
  "transaction_Iter rng c tag fn w =
     (if tag \<in> dom (tagToKeys (deletions c)) then Inr w
      else if set_of (tagToKeys (origin c) tag) \<noteq> {} then Inl NilMapWrite
      else
        (case tagToKeys (additions c) tag of
           None \<Rightarrow> Inr (Iter_loop (transaction_Get c) False fn [] w)
         | Some addedKeys \<Rightarrow>
             if addedKeys \<noteq> {} then Inl NilMapWrite
             else Inr (Iter_loop (transaction_Get c) True fn (rng addedKeys) w)))"

section \<open>The store\<close>

text \<open>
  \<open>Update\<close>, before the callback: the overlay of the store is pointed at the live
  snapshot. (The two locks order concurrent callers and have no effect on one caller.)
\<close>

definition open_tx :: "'v db \<Rightarrow> 'v transaction" where
  "open_tx c = (tx c)\<lparr>origin := storage c\<rparr>"

text \<open>
  The merge under the read lock: every key of the deletions is deleted from the live
  map, then every entry of the additions is assigned, for each of the three maps.
\<close>

definition merge :: "'v storage \<Rightarrow> 'v transaction \<Rightarrow> 'v storage" where
  "merge s c =
     \<lparr>tagToKeys = (tagToKeys s |` (- dom (tagToKeys (deletions c)))) ++ tagToKeys (additions c),
      keyToTags = (keyToTags s |` (- dom (keyToTags (deletions c)))) ++ keyToTags (additions c),
      items = (items s |` (- dom (items (deletions c)))) ++ items (additions c)\<rparr>"

text \<open>
  \<open>Update\<close>, after the callback returned \<open>err\<close> and left the overlay \<open>c'\<close>: merge when
  \<open>err\<close> is nil, then clear the six maps of the overlay.
\<close>

definition publish :: "'v db \<Rightarrow> 'e option \<Rightarrow> 'v transaction \<Rightarrow> 'v db" where
  "publish c err c' =
     (let s = (if err = None then merge (storage c) c' else storage c)
      in \<lparr>storage = s, tx = \<lparr>origin = s, additions = emptyStorage, deletions = emptyStorage\<rparr>\<rparr>)"

text \<open>
  The callback gets the overlay and the variables it captures (\<open>'s\<close>); it returns its
  error, or panics.
\<close>

definition Update ::
  "'v db \<Rightarrow> ('v transaction \<Rightarrow> 's \<Rightarrow> panic + ('e option \<times> 'v transaction \<times> 's)) \<Rightarrow> 's \<Rightarrow>
   panic + ('e option \<times> 'v db \<times> 's)" where
  "Update c updateFn s =
     (case updateFn (open_tx c) s of
        Inl p \<Rightarrow> Inl p
      | Inr (err, c', s') \<Rightarrow> Inr (err, publish c err c', s'))"

definition db_Get :: "'v db \<Rightarrow> string \<Rightarrow> 'v any \<times> bool" where
  "db_Get c key = cacheView_Get (storage c) key"

definition db_Iter ::
  "(string set \<Rightarrow> string list) \<Rightarrow> 'v db \<Rightarrow> string \<Rightarrow>
   (string \<Rightarrow> (unit \<Rightarrow> 'v any \<times> bool) \<Rightarrow> 'w \<Rightarrow> bool \<times> 'w) \<Rightarrow> 'w \<Rightarrow> 'w" where
  "db_Iter rng c tag fn w = cacheView_Iter rng (storage c) tag fn w"

text \<open>
  The one-operation wrappers discard the error of \<open>Update\<close>; their callbacks return nil
  and do not panic, so the panic branch only makes the functions total.
\<close>

definition db_Put :: "'v db \<Rightarrow> string \<Rightarrow> 'v any \<Rightarrow> 'v db" where
  "db_Put c key val =
     (case Update c (\<lambda>writer u. Inr (None :: unit option, Put writer key val, u)) () of
        Inl p \<Rightarrow> c
      | Inr (err, c', u) \<Rightarrow> c')"

definition db_Tag :: "'v db \<Rightarrow> string \<Rightarrow> string list \<Rightarrow> 'v db" where
  "db_Tag c key tags =
     (case Update c (\<lambda>writer u. Inr (None :: unit option, Tag writer key tags, u)) () of
        Inl p \<Rightarrow> c
      | Inr (err, c', u) \<Rightarrow> c')"

definition db_Invalidate ::
  "(string set \<Rightarrow> string list) \<Rightarrow> 'v db \<Rightarrow> string list \<Rightarrow> 'v db \<times> string list" where
  "db_Invalidate rng c tags =
     (case Update c (\<lambda>writer deleted.
              (case Invalidate rng writer tags of
                 (writer', deleted') \<Rightarrow> Inr (None :: unit option, writer', deleted'))) [] of
        Inl p \<Rightarrow> (c, [])
      | Inr (err, c', deleted) \<Rightarrow> (c', deleted))"

text \<open>
  \<open>GetOrFill\<close>. \<open>fill\<close> acts on the state \<open>'w\<close> of its caller, so that a call of \<open>fill\<close>
  can be told from no call. The closure assigns the captured \<open>val\<close>.
\<close>

definition GetOrFill ::
  "'v db \<Rightarrow> string \<Rightarrow> ('w \<Rightarrow> ('v any \<times> 'e option) \<times> 'w) \<Rightarrow> string list \<Rightarrow> 'w \<Rightarrow>
   panic + (('v any \<times> 'e option) \<times> 'v db \<times> 'w)" where
  "GetOrFill c key fill tags w =
     (case db_Get c key of
        (val, True) \<Rightarrow> Inr ((val, None), c, w)
      | (val, False) \<Rightarrow>
          (case Update c (\<lambda>writer (val, w).
                   (case transaction_Get writer key of
                      (val', True) \<Rightarrow> Inr (None, writer, (val', w))
                    | (val', False) \<Rightarrow>
                        (case fill w of
                           ((val'', Some e), w') \<Rightarrow> Inr (Some e, writer, (val'', w'))
                         | ((val'', None), w') \<Rightarrow>
                             Inr (None, Tag (Put writer key val'') key tags, (val'', w')))))
                 (val, w) of
             Inl p \<Rightarrow> Inl p
           | Inr (err, c', (val', w')) \<Rightarrow> Inr ((val', err), c', w')))"

text \<open>The overlay is empty between two calls of \<open>Update\<close>.\<close>

definition idle :: "'v db \<Rightarrow> bool" where
  "idle c \<longleftrightarrow> additions (tx c) = emptyStorage \<and> deletions (tx c) = emptyStorage"

section \<open>Collections\<close>

text \<open>
  An \<open>indexFn\<close> calls \<open>keyVal\<close> with each value of the item, so it is the list of these
  values; an \<open>extractFn\<close> calls \<open>load\<close> with batches of items, so it is the list of these
  batches; a \<open>mapFn\<close> is the list of its calls of the sink. Function values may be nil
  (\<open>None\<close>). An \<open>inferFn\<close> acts on the writer. The store is shared by the collections
  and is passed to the functions that use it. The field \<open>extract\<close> is \<open>extract_fn\<close> here.
\<close>

record 'a index =
  idx_pk :: bool
  idx_kind :: string
  idx_key :: string
  idx_ref :: "('a \<Rightarrow> string list) option"

record ('a, 'v) Collection =
  kind :: string
  pk :: "'a index"
  keys :: "'a index list"
  extract_fn :: "'a list list option"
  inferences :: "('v transaction \<Rightarrow> 'a \<Rightarrow> panic + 'v transaction) list"

definition With ::
  "('a, 'v) Collection \<Rightarrow> (('a, 'v) Collection \<Rightarrow> ('a, 'v) Collection) list \<Rightarrow> ('a, 'v) Collection" where
  "With c opts = fold (\<lambda>opt c'. opt c') opts c"

definition NewCollection ::
  "string \<Rightarrow> (('a, 'v) Collection \<Rightarrow> ('a, 'v) Collection) list \<Rightarrow> ('a, 'v) Collection" where
  "NewCollection knd opts =
     With \<lparr>kind = knd,
           pk = \<lparr>idx_pk = False, idx_kind = [], idx_key = [], idx_ref = None\<rparr>,
           keys = [], extract_fn = None, inferences = []\<rparr> opts"

definition Extractor :: "'a list list option \<Rightarrow> ('a, 'v) Collection \<Rightarrow> ('a, 'v) Collection" where
  "Extractor x c = c\<lparr>extract_fn := x\<rparr>"

definition addIndex ::
  "('a, 'v) Collection \<Rightarrow> string \<Rightarrow> string \<Rightarrow> bool \<Rightarrow> ('a \<Rightarrow> string list) option \<Rightarrow>
   ('a, 'v) Collection \<times> bool" where
  "addIndex c knd key primary val =
     (if list_ex (\<lambda>i. idx_key i = key) (keys c) then (c, False)
      else (let idx = \<lparr>idx_pk = primary, idx_kind = knd, idx_key = key, idx_ref = val\<rparr>
            in if primary then (c\<lparr>pk := idx\<rparr>, True) else (c\<lparr>keys := keys c @ [idx]\<rparr>, True)))"

definition PrimaryKey ::
  "string \<Rightarrow> ('a \<Rightarrow> string list) option \<Rightarrow> ('a, 'v) Collection \<Rightarrow> ('a, 'v) Collection" where
  "PrimaryKey name val c = fst (addIndex c (kind c) name True val)"

definition AdditionalKey ::
  "string \<Rightarrow> ('a \<Rightarrow> string list) option \<Rightarrow> ('a, 'v) Collection \<Rightarrow> ('a, 'v) Collection" where
  "AdditionalKey name val c = fst (addIndex c (kind c) name False val)"

text \<open>A loop whose body may panic.\<close>

fun foldP :: "('x \<Rightarrow> 's \<Rightarrow> panic + 's) \<Rightarrow> 'x list \<Rightarrow> 's \<Rightarrow> panic + 's" where
  "foldP f [] s = Inr s"
| "foldP f (x # xs) s = (case f x s of Inl p \<Rightarrow> Inl p | Inr s' \<Rightarrow> foldP f xs s')"

definition indexer ::
  "('a, 'v) Collection \<Rightarrow> 'a list \<Rightarrow> (string \<Rightarrow> 'a \<Rightarrow> 's \<Rightarrow> panic + 's) \<Rightarrow> 's \<Rightarrow> panic + 's" where
  "indexer c its fn s =
     (case idx_ref (pk c) of
        None \<Rightarrow> Inr s
      | Some ref \<Rightarrow>
          foldP (\<lambda>item. foldP (\<lambda>v. fn (mkKey (kind c) (idx_key (pk c)) v) item) (ref item)) its s)"

definition tagItemWithIndexes ::
  "('a, 'v) Collection \<Rightarrow> 'v transaction \<Rightarrow> string \<Rightarrow> 'a \<Rightarrow> panic + 'v transaction" where
  "tagItemWithIndexes c writer key item =
     foldP (\<lambda>idx w.
              (case idx_ref idx of
                 None \<Rightarrow> Inl NilFuncCall
               | Some ref \<Rightarrow>
                   Inr (fold (\<lambda>v w'. Tag w' key [mkKey (kind c) (idx_key idx) v]) (ref item) w)))
       (keys c) writer"

text \<open>\<open>box\<close> is the conversion of an item to \<open>interface{}\<close>.\<close>

definition loadItem ::
  "('a \<Rightarrow> 'v any) \<Rightarrow> ('a, 'v) Collection \<Rightarrow> 'v transaction \<Rightarrow> string \<Rightarrow> 'a \<Rightarrow>
   panic + 'v transaction" where
  "loadItem box c writer key item =
     (case tagItemWithIndexes c (Tag (Put writer key (box item)) key [kind c]) key item of
        Inl p \<Rightarrow> Inl p
      | Inr w \<Rightarrow> foldP (\<lambda>infer w'. infer w' item) (inferences c) w)"

definition Load ::
  "('a \<Rightarrow> 'v any) \<Rightarrow> ('a, 'v) Collection \<Rightarrow> 'v transaction \<Rightarrow> panic + 'v transaction" where
  "Load box c writer =
     (case extract_fn c of
        None \<Rightarrow> Inl NilFuncCall
      | Some batches \<Rightarrow>
          foldP (\<lambda>its. indexer c its (\<lambda>key item w. loadItem box c w key item)) batches writer)"

definition Collection_Invalidate ::
  "(string set \<Rightarrow> string list) \<Rightarrow> ('a \<Rightarrow> 'v any) \<Rightarrow> ('a, 'v) Collection \<Rightarrow> 'v db \<Rightarrow>
   panic + 'v db" where
  "Collection_Invalidate rng box c d =
     (case Update d (\<lambda>writer u.
              (case Load box c (fst (Invalidate rng writer [kind c])) of
                 Inl p \<Rightarrow> Inl p
               | Inr writer' \<Rightarrow> Inr (None :: unit option, writer', u))) () of
        Inl p \<Rightarrow> Inl p
      | Inr (err, d', u) \<Rightarrow> Inr d')"

text \<open>
  \<open>Infer\<close> makes the inferred collection with no option and appends a closure to the
  inferences of the base collection. The closure holds pointers to both collections, so
  it reads them as they are when it runs: options and indexes set on either collection
  after \<open>Infer\<close> are seen by it. \<open>Infer_fn\<close> is the body of the closure, given the two
  collections as they are when it runs. The second component of \<open>Infer\<close> is the append:
  given the base collection and the inferred collection as they are when the base
  collection is loaded, it is the base collection with the closure among its inferences.
\<close>

definition Infer_fn ::
  "('b \<Rightarrow> 'v any) \<Rightarrow> ('a, 'v) Collection \<Rightarrow> ('b, 'v) Collection \<Rightarrow> string \<Rightarrow>
   ('a \<Rightarrow> (string \<times> 'b list) list) \<Rightarrow> 'v transaction \<Rightarrow> 'a \<Rightarrow> panic + 'v transaction" where
  "Infer_fn box baseCol inferredCol mapBy mapFn writer base =
     foldP (\<lambda>(kv, its).
              indexer inferredCol its
                (\<lambda>key item w.
                   (case loadItem box inferredCol w key item of
                      Inl p \<Rightarrow> Inl p
                    | Inr w' \<Rightarrow>
                        (case idx_ref (pk baseCol) of
                           None \<Rightarrow> Inl NilFuncCall
                         | Some ref \<Rightarrow>
                             Inr (fold (\<lambda>v w''. Tag w'' key [mkKey (kind baseCol) mapBy kv])
                                    (ref base) w')))))
       (mapFn base) writer"

definition Infer ::
  "('b \<Rightarrow> 'v any) \<Rightarrow> ('a, 'v) Collection \<Rightarrow> string \<Rightarrow> ('a \<Rightarrow> (string \<times> 'b list) list) \<Rightarrow>
   ('b, 'v) Collection \<times> (('a, 'v) Collection \<Rightarrow> ('b, 'v) Collection \<Rightarrow> ('a, 'v) Collection)" where
  "Infer box baseCol mapBy mapFn =
     (NewCollection mapBy [],
      \<lambda>baseNow inferredNow.
        baseNow\<lparr>inferences := inferences baseNow @
                  [Infer_fn box baseNow inferredNow mapBy mapFn]\<rparr>)"

text \<open>
  \<open>Derive\<close>. The key is assigned at each call of the primary index's sink, so the last
  value wins and no value leaves the empty key. \<open>unbox\<close> is the type assertion
  \<open>val.(Out)\<close>. The result is the error or the output.
\<close>

datatype 'e derive_error = NoPrimaryKey string | FillError 'e | TypeAssertion

definition Derive_key :: "('a, 'v) Collection \<Rightarrow> string \<Rightarrow> string list \<Rightarrow> string" where
  "Derive_key collection name vs =
     fold (\<lambda>v key. mkKey (kind collection @ ''/'' @ name) (idx_key (pk collection)) v) vs []"

definition Derive ::
  "('out \<Rightarrow> 'v any) \<Rightarrow> ('v any \<Rightarrow> 'out option) \<Rightarrow> ('a, 'v) Collection \<Rightarrow> string \<Rightarrow>
   ('a \<Rightarrow> 'w \<Rightarrow> ('out \<times> 'e option) \<times> 'w) \<Rightarrow> 'v db \<Rightarrow> 'a \<Rightarrow> 'w \<Rightarrow>
   panic + (('e derive_error + 'out) \<times> 'v db \<times> 'w)" where
  "Derive box unbox collection name fn d inp w =
     (case idx_ref (pk collection) of
        None \<Rightarrow> Inr (Inl (NoPrimaryKey (kind collection)), d, w)
      | Some ref \<Rightarrow>
          (case GetOrFill d (Derive_key collection name (ref inp))
                  (\<lambda>w0. (case fn inp w0 of ((out, err), w1) \<Rightarrow> ((box out, err), w1)))
                  [kind collection] w of
             Inl p \<Rightarrow> Inl p
           | Inr ((val, Some e), d', w') \<Rightarrow> Inr (Inl (FillError e), d', w')
           | Inr ((val, None), d', w') \<Rightarrow>
               (case unbox val of
                  None \<Rightarrow> Inr (Inl TypeAssertion, d', w')
                | Some out \<Rightarrow> Inr (Inr out, d', w'))))"

section \<open>What the overlay shows\<close>

text \<open>
  The tag set of a key and the key set of a tag as the writer reads them: the additions'
  entry when there is one, the origin's otherwise.
\<close>

definition eff_tags :: "'v transaction \<Rightarrow> string \<Rightarrow> string set" where
  "eff_tags c key =
     (case keyToTags (additions c) key of Some ts \<Rightarrow> ts | None \<Rightarrow> set_of (keyToTags (origin c) key))"

definition eff_keys :: "'v transaction \<Rightarrow> string \<Rightarrow> string set" where
  "eff_keys c tag =
     (case tagToKeys (additions c) tag of Some ks \<Rightarrow> ks | None \<Rightarrow> set_of (tagToKeys (origin c) tag))"

section \<open>Consistency of a snapshot\<close>

text \<open>
  Every stored key has an entry of tags; and a tag is listed for a key exactly when the
  key is listed for the tag.
\<close>

definition keys_have_tags :: "'v storage \<Rightarrow> bool" where
  "keys_have_tags s \<longleftrightarrow> dom (items s) \<subseteq> dom (keyToTags s)"

definition tags_agree :: "'v storage \<Rightarrow> bool" where
  "tags_agree s \<longleftrightarrow>
     (\<forall>key tag. (tag \<in> set_of (keyToTags s key)) = (key \<in> set_of (tagToKeys s tag)))"

definition consistent :: "'v storage \<Rightarrow> bool" where
  "consistent s \<longleftrightarrow> keys_have_tags s \<and> tags_agree s"

text \<open>A callback of \<open>Update\<close> that makes a sequence of \<open>Put\<close> and \<open>Tag\<close> calls on the writer.\<close>

datatype 'v wop = WPut string "'v any" | WTag string "string list"

fun run_wop :: "'v wop \<Rightarrow> 'v transaction \<Rightarrow> 'v transaction" where
  "run_wop (WPut key val) c = Put c key val"
| "run_wop (WTag key tags) c = Tag c key tags"

definition run_wops :: "'v wop list \<Rightarrow> 'v transaction \<Rightarrow> 'v transaction" where
  "run_wops ops c = fold run_wop ops c"

fun put_key :: "'v wop \<Rightarrow> string set" where
  "put_key (WPut key val) = {key}"
| "put_key (WTag key tags) = {}"

fun tag_key :: "'v wop \<Rightarrow> string set" where
  "tag_key (WPut key val) = {}"
| "tag_key (WTag key tags) = {key}"

text \<open>The same agreement for the tag sets and key sets that an overlay shows.\<close>

definition overlay_agrees :: "'v transaction \<Rightarrow> bool" where
  "overlay_agrees c \<longleftrightarrow> (\<forall>key tag. (tag \<in> eff_tags c key) = (key \<in> eff_keys c tag))"

section \<open>What an overlay holds for a key\<close>

text \<open>
  Whether the overlay has marked the key deleted, and the value it has put for the key.
  The merge deletes a key with the mark \<open>(True, None)\<close> and leaves a key with the mark
  \<open>(False, None)\<close> as it is in the live snapshot.
\<close>

definition mark :: "string \<Rightarrow> 'v transaction \<Rightarrow> bool \<times> 'v any option" where
  "mark key c = (key \<in> dom (items (deletions c)), items (additions c) key)"

text \<open>An inference that neither changes the deletions nor puts the key.\<close>

definition leaves_alone ::
  "string \<Rightarrow> ('v transaction \<Rightarrow> 'a \<Rightarrow> panic + 'v transaction) \<Rightarrow> bool" where
  "leaves_alone key infer \<longleftrightarrow>
     (\<forall>w item w'. infer w item = Inr w' \<longrightarrow>
        deletions w' = deletions w \<and> items (additions w') key = items (additions w) key)"

text \<open>What \<open>Derive\<close> returns for the result of the computation, when it ran.\<close>

definition Derive_result ::
  "('out \<Rightarrow> 'v any) \<Rightarrow> ('v any \<Rightarrow> 'out option) \<Rightarrow> 'out \<times> 'e option \<Rightarrow> 'e derive_error + 'out" where
  "Derive_result box unbox r =
     (case r of
        (out, Some e) \<Rightarrow> Inl (FillError e)
      | (out, None) \<Rightarrow>
          (case unbox (box out) of None \<Rightarrow> Inl TypeAssertion | Some out' \<Rightarrow> Inr out'))"

section \<open>Example states\<close>

text \<open>
  A store with the keys \<open>k\<close> and \<open>j\<close>, where \<open>k\<close> is tagged \<open>t\<close>; and the overlay opened on
  it after \<open>Invalidate(t)\<close> followed by \<open>Put(k, 2)\<close>.
\<close>

definition ex_db :: "nat db" where
  "ex_db = db_Tag (db_Put (db_Put NewDB ''k'' (Any 1)) ''j'' (Any 5)) ''k'' [''t'']"

definition ex_overlay :: "nat transaction" where
  "ex_overlay = Put (fst (Invalidate (\<lambda>ks. [''k'']) (open_tx ex_db) [''t''])) ''k'' (Any 2)"

text \<open>The store of the repository's test after its first two \<open>Put\<close> and \<open>Tag\<close> calls.\<close>

definition ex_test_db :: "string db" where
  "ex_test_db =
     db_Tag (db_Put (db_Tag (db_Put NewDB ''foo'' (Any ''bar'')) ''foo'' [''1'', ''2'', ''3''])
               ''bar'' (Any ''baz'')) ''bar'' [''1'', ''2'', ''3'']"

text \<open>A store where \<open>k\<close> is tagged \<open>t1\<close> and \<open>t2\<close>.\<close>

definition ex_two_tags :: "nat db" where
  "ex_two_tags = db_Tag (db_Put NewDB ''k'' (Any 1)) ''k'' [''t1'', ''t2'']"

text \<open>A store where \<open>k1\<close> is tagged \<open>t1\<close> only and \<open>k2\<close> is tagged \<open>t1\<close> and \<open>t2\<close>.\<close>

definition ex_shared_tag :: "nat db" where
  "ex_shared_tag =
     db_Tag (db_Put (db_Tag (db_Put NewDB ''k1'' (Any 1)) ''k1'' [''t1'']) ''k2'' (Any 2))
       ''k2'' [''t1'', ''t2'']"

text \<open>A collection of numbers with an extractor and a primary index.\<close>

definition ex_col :: "(nat, nat) Collection" where
  "ex_col = NewCollection ''foo''
     [Extractor (Some [[1, 2]]), PrimaryKey ''id'' (Some (\<lambda>n. [if n = 1 then ''1'' else ''2'']))]"

text \<open>
  The collection \<open>bar\<close> of the repository's test, with its primary index \<open>id\<close> and its
  additional index \<open>name\<close>, and with items reduced to their id and their pattern (the one
  item has the id \<open>1\<close>, the name \<open>bar1\<close> and the pattern \<open>a\<close>); a computation that returns
  the pattern and counts its calls; and the type assertion to a string.
\<close>

definition ex_bar :: "(string \<times> string, string) Collection" where
  "ex_bar = NewCollection ''bar''
     [Extractor (Some [[(''1'', ''a'')]]), PrimaryKey ''id'' (Some (\<lambda>item. [fst item])),
      AdditionalKey ''name'' (Some (\<lambda>item. [''bar1'']))]"

definition ex_pattern :: "string \<times> string \<Rightarrow> nat \<Rightarrow> (string \<times> unit option) \<times> nat" where
  "ex_pattern item n = ((snd item, None), n + 1)"

definition ex_unbox :: "string any \<Rightarrow> string option" where
  "ex_unbox v = (case v of AnyNil \<Rightarrow> None | Any x \<Rightarrow> Some x)"

text \<open>
  A base collection whose one item has the id \<open>1\<close> and the inferred items \<open>[x]\<close>, and the
  collection inferred from it by \<open>foo-by-bar\<close>, with its primary index set after \<open>Infer\<close>
  as the repository's test does.
\<close>

definition ex_base :: "(string \<times> string list, string) Collection" where
  "ex_base = NewCollection ''bar''
     [Extractor (Some [[(''1'', [''x''])]]), PrimaryKey ''id'' (Some (\<lambda>item. [fst item]))]"

definition ex_foo :: "(string, string) Collection" where
  "ex_foo = PrimaryKey ''id'' (Some (\<lambda>f. [f]))
      (fst (Infer Any ex_base ''foo-by-bar'' (\<lambda>item. [(fst item, snd item)])))"

section \<open>Properties of the key codec\<close>

lemma IndexByte_notin: "c \<notin> set xs \<Longrightarrow> IndexByte (xs @ c # ys) c = int (length xs)"
  by (induction xs) (auto simp: Let_def)

lemma mkKey_parts:
  "mkKey knd ky val = knd @ CHR ''{'' # ky @ CHR '':'' # val @ [CHR ''}'']"
  by (simp add: mkKey_def writeKey_def curlyStart_def colon_def curlyEnd_def)

lemma parseKey_mkKey:
  assumes knd: "CHR ''{'' \<notin> set knd" "CHR '':'' \<notin> set knd" "CHR ''}'' \<notin> set knd"
    and ky: "CHR '':'' \<notin> set ky" "CHR ''}'' \<notin> set ky"
    and val: "CHR ''}'' \<notin> set val"
  shows "parseKey (mkKey knd ky val) = Inr (knd, ky, val, True)"
proof -
  let ?s = "mkKey knd ky val"
  have "IndexByte (knd @ CHR ''{'' # (ky @ CHR '':'' # val @ [CHR ''}''])) (CHR ''{'')
          = int (length knd)"
    using knd(1) by (rule IndexByte_notin)
  then have i1: "IndexByte ?s curlyStart = int (length knd)"
    by (simp add: mkKey_parts curlyStart_def)
  have "IndexByte ((knd @ CHR ''{'' # ky) @ CHR '':'' # (val @ [CHR ''}''])) (CHR '':'')
          = int (length (knd @ CHR ''{'' # ky))"
    by (rule IndexByte_notin) (use knd(2) ky(1) in simp)
  then have i2: "IndexByte ?s colon = int (length knd) + 1 + int (length ky)"
    by (simp add: mkKey_parts colon_def)
  have "IndexByte ((knd @ CHR ''{'' # ky @ CHR '':'' # val) @ CHR ''}'' # []) (CHR ''}'')
          = int (length (knd @ CHR ''{'' # ky @ CHR '':'' # val))"
    by (rule IndexByte_notin) (use knd(3) ky(2) val in simp)
  then have i3:
    "IndexByte ?s curlyEnd = int (length knd) + 1 + int (length ky) + 1 + int (length val)"
    by (simp add: mkKey_parts curlyEnd_def)
  have s1: "slice ?s 0 (int (length knd)) = Inr knd"
    by (simp add: slice_def mkKey_parts)
  have s2: "slice ?s (int (length knd) + 1) (int (length knd) + 1 + int (length ky)) = Inr ky"
    by (simp add: slice_def mkKey_parts nat_add_distrib)
  have s3: "slice ?s (int (length knd) + 1 + int (length ky) + 1)
              (int (length knd) + 1 + int (length ky) + 1 + int (length val)) = Inr val"
    by (simp add: slice_def mkKey_parts nat_add_distrib)
  show ?thesis
    unfolding parseKey_def Let_def i1 i2 i3 using s1 s2 s3 by simp
qed

lemma parseKey_mkKey_free:
  "delimiter_free knd \<Longrightarrow> delimiter_free attr \<Longrightarrow> delimiter_free val \<Longrightarrow>
     parseKey (mkKey knd attr val) = Inr (knd, attr, val, True)"
  by (rule parseKey_mkKey) (simp_all add: delimiter_free_def curlyStart_def colon_def curlyEnd_def)

text \<open>
  C7. Round trip of the key codec: when none of the delimiters \<open>{\<close>, \<open>:\<close>, \<open>}\<close> occurs in
  kind, attribute or value, \<open>parseKey (mkKey kind attr val)\<close> returns exactly
  \<open>(kind, attr, val, true)\<close>, and so \<open>mkKey\<close> is injective on such triples.
\<close>

theorem C7_codec_round_trip:
  assumes "delimiter_free knd" and "delimiter_free attr" and "delimiter_free val"
  shows "parseKey (mkKey knd attr val) = Inr (knd, attr, val, True) \<and>
         (\<forall>knd' attr' val'.
            delimiter_free knd' \<and> delimiter_free attr' \<and> delimiter_free val' \<and>
            mkKey knd attr val = mkKey knd' attr' val' \<longrightarrow>
            knd = knd' \<and> attr = attr' \<and> val = val')"
proof (intro conjI allI impI)
  show rt: "parseKey (mkKey knd attr val) = Inr (knd, attr, val, True)"
    using assms by (rule parseKey_mkKey_free)
  fix knd' attr' val'
  assume a: "delimiter_free knd' \<and> delimiter_free attr' \<and> delimiter_free val' \<and>
            mkKey knd attr val = mkKey knd' attr' val'"
  then have "parseKey (mkKey knd' attr' val') = Inr (knd', attr', val', True)"
    by (intro parseKey_mkKey_free) simp_all
  with rt a show "knd = knd'" "attr = attr'" "val = val'"
    by simp_all
qed

theorem C7_codec_round_trip_witness:
  "delimiter_free ''foo'' \<and> delimiter_free ''id'' \<and> delimiter_free ''1'' \<and>
   parseKey (mkKey ''foo'' ''id'' ''1'') = Inr (''foo'', ''id'', ''1'', True)"
proof -
  have h: "delimiter_free ''foo''" "delimiter_free ''id''" "delimiter_free ''1''"
    by (simp_all add: delimiter_free_def curlyStart_def colon_def curlyEnd_def)
  from C7_codec_round_trip [OF h] h show ?thesis by simp
qed

text \<open>
  C8. \<open>parseKey\<close> is claimed never to panic; on \<open>a:b{c}\<close> the first \<open>:\<close> is at index 1
  and the first \<open>{\<close> at index 3, so the slice \<open>key[4:1]\<close> panics.
\<close>

theorem C8_parseKey_panics: "parseKey ''a:b{c}'' = Inl SliceBounds"
  by (simp add: parseKey_def slice_def curlyStart_def colon_def curlyEnd_def)

text \<open>
  A key that \<open>mkKey\<close> made from a kind with a colon in it makes \<open>parseKey\<close> panic as well.
\<close>

lemma parseKey_panics_on_encoded_key: "parseKey (mkKey ''a:b'' ''id'' ''1'') = Inl SliceBounds"
  by (simp add: parseKey_def mkKey_parts slice_def curlyStart_def colon_def curlyEnd_def)

section \<open>Effect of the writer's operations\<close>

lemma set_of_simps [simp]: "set_of None = {}" "set_of (Some S) = S"
  by (simp_all add: set_of_def)

lemma Tag_step_frame [simp]:
  "origin (Tag_step key tag c) = origin c"
  "deletions (Tag_step key tag c) = deletions c"
  "items (additions (Tag_step key tag c)) = items (additions c)"
  by (simp_all add: Tag_step_def Let_def)

lemma Tag_step_keyToTags:
  "keyToTags (additions (Tag_step key tag c)) =
     (keyToTags (additions c))(key \<mapsto> insert tag (set_of (keyToTags (additions c) key)))"
  by (simp add: Tag_step_def Let_def)

lemma Tag_step_tagToKeys:
  "tagToKeys (additions (Tag_step key tag c)) =
     (tagToKeys (additions c))(tag \<mapsto> insert key (eff_keys c tag))"
  by (auto simp: Tag_step_def Let_def eff_keys_def set_of_def split: option.splits)

lemma eff_keys_Tag_step:
  "eff_keys (Tag_step key tag c) tag' = (if tag' = tag then insert key (eff_keys c tag) else eff_keys c tag')"
  by (simp add: eff_keys_def Tag_step_tagToKeys cong: option.case_cong)

lemma fold_Tag_step_frame [simp]:
  "origin (fold (Tag_step key) tags c) = origin c"
  "deletions (fold (Tag_step key) tags c) = deletions c"
  "items (additions (fold (Tag_step key) tags c)) = items (additions c)"
  by (induction tags arbitrary: c) simp_all

lemma fold_Tag_step_keyToTags:
  "keyToTags (additions c) key = Some ts \<Longrightarrow>
   keyToTags (additions (fold (Tag_step key) tags c)) = (keyToTags (additions c))(key \<mapsto> ts \<union> set tags)"
proof (induction tags arbitrary: c ts)
  case Nil
  then show ?case by (simp add: fun_upd_idem)
next
  case (Cons tag tags)
  have "keyToTags (additions (Tag_step key tag c)) key = Some (insert tag ts)"
    using Cons.prems by (simp add: Tag_step_keyToTags set_of_def)
  from Cons.IH [OF this] Cons.prems show ?case
    by (auto simp: Tag_step_keyToTags set_of_def fun_eq_iff)
qed

lemma fold_Tag_step_tagToKeys:
  "tagToKeys (additions (fold (Tag_step key) tags c)) =
     (\<lambda>tag. if tag \<in> set tags then Some (insert key (eff_keys c tag)) else tagToKeys (additions c) tag)"
proof (induction tags arbitrary: c)
  case Nil
  then show ?case by simp
next
  case (Cons tag tags)
  show ?case
    by (rule ext) (simp add: Cons.IH eff_keys_Tag_step Tag_step_tagToKeys)
qed

lemma Tag_init_frame [simp]:
  "origin (Tag_init c key) = origin c"
  "deletions (Tag_init c key) = deletions c"
  "items (additions (Tag_init c key)) = items (additions c)"
  "tagToKeys (additions (Tag_init c key)) = tagToKeys (additions c)"
  by (simp_all add: Tag_init_def)

lemma Tag_init_keyToTags:
  "keyToTags (additions (Tag_init c key)) = (keyToTags (additions c))(key \<mapsto> eff_tags c key)"
  by (auto simp: Tag_init_def eff_tags_def split: option.splits)

lemma eff_keys_Tag_init [simp]: "eff_keys (Tag_init c key) tag = eff_keys c tag"
  by (simp add: eff_keys_def cong: option.case_cong)

lemma Tag_frame [simp]:
  "origin (Tag c key tags) = origin c"
  "deletions (Tag c key tags) = deletions c"
  "items (additions (Tag c key tags)) = items (additions c)"
  by (simp_all add: Tag_def)

lemma Tag_keyToTags:
  "keyToTags (additions (Tag c key tags)) = (keyToTags (additions c))(key \<mapsto> eff_tags c key \<union> set tags)"
proof -
  have "keyToTags (additions (Tag_init c key)) key = Some (eff_tags c key)"
    by (simp add: Tag_init_keyToTags)
  from fold_Tag_step_keyToTags [OF this] show ?thesis
    by (simp add: Tag_def Tag_init_keyToTags)
qed

lemma Tag_tagToKeys:
  "tagToKeys (additions (Tag c key tags)) =
     (\<lambda>tag. if tag \<in> set tags then Some (insert key (eff_keys c tag)) else tagToKeys (additions c) tag)"
  by (simp add: Tag_def fold_Tag_step_tagToKeys cong: if_cong)

lemma eff_tags_Tag:
  "eff_tags (Tag c key tags) k = (if k = key then eff_tags c key \<union> set tags else eff_tags c k)"
  by (simp add: eff_tags_def Tag_keyToTags cong: option.case_cong)

lemma eff_keys_Tag:
  "eff_keys (Tag c key tags) tag = (if tag \<in> set tags then insert key (eff_keys c tag) else eff_keys c tag)"
  by (simp add: eff_keys_def Tag_tagToKeys cong: option.case_cong)

lemma Put_frame [simp]:
  "origin (Put c key val) = origin c"
  "deletions (Put c key val) = deletions c"
  "keyToTags (additions (Put c key val)) = keyToTags (additions c)"
  "tagToKeys (additions (Put c key val)) = tagToKeys (additions c)"
  "items (additions (Put c key val)) = (items (additions c))(key \<mapsto> val)"
  by (simp_all add: Put_def)

lemma eff_Put [simp]:
  "eff_tags (Put c key val) k = eff_tags c k"
  "eff_keys (Put c key val) tag = eff_keys c tag"
  by (simp_all add: eff_tags_def eff_keys_def cong: option.case_cong)

lemma open_tx_idle:
  "idle c \<Longrightarrow> open_tx c = \<lparr>origin = storage c, additions = emptyStorage, deletions = emptyStorage\<rparr>"
  by (cases c, cases "tx c") (simp add: idle_def open_tx_def)

lemma deleteKey_frame [simp]:
  "origin (deleteKey c key) = origin c"
  "keyToTags (additions (deleteKey c key)) = keyToTags (additions c)"
  "keyToTags (deletions (deleteKey c key)) = keyToTags (deletions c)"
  "items (additions (deleteKey c key)) = (items (additions c))(key := None)"
  by (simp_all add: deleteKey_def Let_def)

lemma deleteKey_dom_items [simp]:
  "dom (items (deletions (deleteKey c key))) = insert key (dom (items (deletions c)))"
  by (simp add: deleteKey_def Let_def)

lemma deleteKey_dom_tagToKeys:
  "dom (tagToKeys (deletions (deleteKey c key))) = dom (tagToKeys (deletions c)) \<union> eff_tags c key"
  by (auto simp: deleteKey_def Let_def eff_tags_def dom_def split: if_splits)

lemma deleteKey_additions_empty:
  "additions c = emptyStorage \<Longrightarrow> additions (deleteKey c key) = emptyStorage"
  by (simp add: deleteKey_def Let_def emptyStorage_def cong: if_cong)

lemma eff_tags_deleteKey [simp]: "eff_tags (deleteKey c key) k = eff_tags c k"
  by (simp add: eff_tags_def cong: option.case_cong)

lemma fold_deleteKey_frame [simp]:
  "origin (fold (\<lambda>k c'. deleteKey c' k) ks c) = origin c"
  "keyToTags (deletions (fold (\<lambda>k c'. deleteKey c' k) ks c)) = keyToTags (deletions c)"
  "eff_tags (fold (\<lambda>k c'. deleteKey c' k) ks c) k' = eff_tags c k'"
  by (induction ks arbitrary: c) simp_all

lemma fold_deleteKey_additions_empty:
  "additions c = emptyStorage \<Longrightarrow> additions (fold (\<lambda>k c'. deleteKey c' k) ks c) = emptyStorage"
  by (induction ks arbitrary: c) (simp_all add: deleteKey_additions_empty)

lemma fold_deleteKey_dom_items:
  "dom (items (deletions (fold (\<lambda>k c'. deleteKey c' k) ks c))) = dom (items (deletions c)) \<union> set ks"
  by (induction ks arbitrary: c) auto

lemma fold_deleteKey_dom_tagToKeys:
  "dom (tagToKeys (deletions (fold (\<lambda>k c'. deleteKey c' k) ks c))) =
     dom (tagToKeys (deletions c)) \<union> (\<Union>k\<in>set ks. eff_tags c k)"
  by (induction ks arbitrary: c) (auto simp: deleteKey_dom_tagToKeys)

lemma fold_deleteKey_pair:
  "fold (\<lambda>k (c', del). (deleteKey c' k, add_deleted del k)) ks (c, deleted) =
     (fold (\<lambda>k c'. deleteKey c' k) ks c, fold (\<lambda>k del. add_deleted del k) ks deleted)"
  by (induction ks arbitrary: c deleted) simp_all

lemma set_add_deleted [simp]: "set (add_deleted deleted k) = insert k (set deleted)"
  by (auto simp: add_deleted_def)

lemma set_fold_add_deleted:
  "set (fold (\<lambda>k del. add_deleted del k) ks deleted) = set deleted \<union> set ks"
  by (induction ks arbitrary: deleted) auto

text \<open>One tag invalidated on an overlay that has no additions.\<close>

lemma Invalidate_step_pure:
  assumes "additions c = emptyStorage" and "tag \<notin> dom (tagToKeys (deletions c))"
    and "tagToKeys (origin c) tag = Some ks" and "set (rng ks) = ks"
  shows "additions (fst (Invalidate_step rng tag (c, deleted))) = emptyStorage"
    and "origin (fst (Invalidate_step rng tag (c, deleted))) = origin c"
    and "keyToTags (deletions (fst (Invalidate_step rng tag (c, deleted)))) = keyToTags (deletions c)"
    and "dom (items (deletions (fst (Invalidate_step rng tag (c, deleted))))) =
           dom (items (deletions c)) \<union> insert tag ks"
    and "dom (tagToKeys (deletions (fst (Invalidate_step rng tag (c, deleted))))) =
           dom (tagToKeys (deletions c)) \<union> insert tag (\<Union>k\<in>insert tag ks. set_of (keyToTags (origin c) k))"
    and "set (snd (Invalidate_step rng tag (c, deleted))) = set deleted \<union> insert tag ks"
proof -
  let ?c1 = "c\<lparr>additions := (additions c)\<lparr>tagToKeys := (tagToKeys (additions c))(tag := None)\<rparr>,
               deletions := (deletions c)\<lparr>tagToKeys := (tagToKeys (deletions c))(tag \<mapsto> {})\<rparr>\<rparr>"
  let ?c2 = "fold (\<lambda>k c'. deleteKey c' k) (rng ks) ?c1"
  have step: "Invalidate_step rng tag (c, deleted) =
      (deleteKey ?c2 tag, add_deleted (fold (\<lambda>k del. add_deleted del k) (rng ks) deleted) tag)"
    using assms(1-3) by (simp add: Invalidate_step_def Let_def fold_deleteKey_pair emptyStorage_def)
  have a1: "additions ?c1 = emptyStorage"
    using assms(1) by (simp add: emptyStorage_def)
  have e1: "\<And>k. eff_tags ?c1 k = set_of (keyToTags (origin c) k)"
    using assms(1) by (simp add: eff_tags_def emptyStorage_def)
  show "additions (fst (Invalidate_step rng tag (c, deleted))) = emptyStorage"
    by (simp add: step deleteKey_additions_empty fold_deleteKey_additions_empty a1)
  show "origin (fst (Invalidate_step rng tag (c, deleted))) = origin c"
    by (simp add: step)
  show "keyToTags (deletions (fst (Invalidate_step rng tag (c, deleted)))) = keyToTags (deletions c)"
    by (simp add: step)
  show "dom (items (deletions (fst (Invalidate_step rng tag (c, deleted))))) =
           dom (items (deletions c)) \<union> insert tag ks"
    using assms(4) by (simp add: step fold_deleteKey_dom_items)
  show "dom (tagToKeys (deletions (fst (Invalidate_step rng tag (c, deleted))))) =
           dom (tagToKeys (deletions c)) \<union> insert tag (\<Union>k\<in>insert tag ks. set_of (keyToTags (origin c) k))"
    using assms(4) by (simp add: step deleteKey_dom_tagToKeys fold_deleteKey_dom_tagToKeys e1) blast
  show "set (snd (Invalidate_step rng tag (c, deleted))) = set deleted \<union> insert tag ks"
    using assms(4) by (auto simp: step set_fold_add_deleted)
qed

section \<open>Properties of the store\<close>

lemma publish_error: "storage (publish c (Some e) c') = storage c"
  by (simp add: publish_def Let_def)

lemma publish_ok: "storage (publish c None c') = merge (storage c) c'"
  by (simp add: publish_def Let_def)

lemma publish_idle: "idle (publish c err c')"
  by (simp add: publish_def idle_def Let_def)

lemma merge_items:
  "items (merge s c) key =
     (case items (additions c) key of
        Some v \<Rightarrow> Some v
      | None \<Rightarrow> if key \<in> dom (items (deletions c)) then None else items s key)"
  by (simp add: merge_def map_add_def restrict_map_def split: option.splits)

lemma merge_tagToKeys:
  "tagToKeys (merge s c) tag =
     (case tagToKeys (additions c) tag of
        Some ks \<Rightarrow> Some ks
      | None \<Rightarrow> if tag \<in> dom (tagToKeys (deletions c)) then None else tagToKeys s tag)"
  by (simp add: merge_def map_add_def restrict_map_def split: option.splits)

lemma merge_keyToTags:
  "keyToTags (merge s c) key =
     (case keyToTags (additions c) key of
        Some ts \<Rightarrow> Some ts
      | None \<Rightarrow> if key \<in> dom (keyToTags (deletions c)) then None else keyToTags s key)"
  by (simp add: merge_def map_add_def restrict_map_def split: option.splits)

lemma storage_eqI:
  "tagToKeys a = tagToKeys b \<Longrightarrow> keyToTags a = keyToTags b \<Longrightarrow> items a = items b \<Longrightarrow>
   (a :: 'v storage) = b"
  by simp

lemma merge_empty_deletions:
  "deletions c = emptyStorage \<Longrightarrow>
   merge s c = \<lparr>tagToKeys = tagToKeys s ++ tagToKeys (additions c),
                keyToTags = keyToTags s ++ keyToTags (additions c),
                items = items s ++ items (additions c)\<rparr>"
  by (simp add: merge_def emptyStorage_def restrict_map_def)

lemma eff_fresh [simp]:
  "eff_tags \<lparr>origin = s, additions = emptyStorage, deletions = d\<rparr> key = set_of (keyToTags s key)"
  "eff_keys \<lparr>origin = s, additions = emptyStorage, deletions = d\<rparr> tag = set_of (tagToKeys s tag)"
  by (simp_all add: eff_tags_def eff_keys_def emptyStorage_def)

lemma idle_db_Put [simp]: "idle (db_Put c key val)"
  by (simp add: db_Put_def Update_def publish_idle)

lemma idle_db_Tag [simp]: "idle (db_Tag c key tags)"
  by (simp add: db_Tag_def Update_def publish_idle)

lemma idle_db_Invalidate [simp]: "idle (fst (db_Invalidate rng c tags))"
  by (simp add: db_Invalidate_def Update_def publish_idle split: prod.splits)

lemma idle_NewDB [simp]: "idle NewDB"
  by (simp add: idle_def NewDB_def)

lemma db_Put_storage:
  "idle c \<Longrightarrow> storage (db_Put c key val) = (storage c)\<lparr>items := (items (storage c))(key \<mapsto> val)\<rparr>"
  by (simp add: db_Put_def Update_def publish_ok open_tx_idle merge_empty_deletions Put_def emptyStorage_def)

lemma db_Tag_storage:
  "idle c \<Longrightarrow> storage (db_Tag c key tags) =
     (storage c)\<lparr>tagToKeys := (\<lambda>tag. if tag \<in> set tags
                                     then Some (insert key (set_of (tagToKeys (storage c) tag)))
                                     else tagToKeys (storage c) tag),
                 keyToTags := (keyToTags (storage c))
                                (key \<mapsto> set_of (keyToTags (storage c) key) \<union> set tags)\<rparr>"
  apply (rule storage_eqI)
    apply (simp_all add: db_Tag_def Update_def publish_ok open_tx_idle merge_empty_deletions
      Tag_keyToTags Tag_tagToKeys cong: if_cong)
   apply (auto simp: map_add_def fun_eq_iff emptyStorage_def)
  done

lemma Invalidate_single: "Invalidate rng c [tag] = Invalidate_step rng tag (c, [])"
  by (simp add: Invalidate_def)

lemma db_Invalidate_eq:
  "db_Invalidate rng c [tag] =
     (publish c (None :: unit option) (fst (Invalidate_step rng tag (open_tx c, []))),
      snd (Invalidate_step rng tag (open_tx c, [])))"
  by (simp add: db_Invalidate_def Update_def Invalidate_single split: prod.splits)

lemma db_Invalidate_one:
  assumes "idle c" and "tagToKeys (storage c) tag = Some ks" and "set (rng ks) = ks"
  shows "items (storage (fst (db_Invalidate rng c [tag]))) = items (storage c) |` (- insert tag ks)"
    and "tagToKeys (storage (fst (db_Invalidate rng c [tag]))) =
           tagToKeys (storage c) |` (- insert tag (\<Union>k\<in>insert tag ks. set_of (keyToTags (storage c) k)))"
    and "keyToTags (storage (fst (db_Invalidate rng c [tag]))) = keyToTags (storage c)"
    and "set (snd (db_Invalidate rng c [tag])) = insert tag ks"
proof -
  let ?o = "open_tx c"
  have o: "additions ?o = emptyStorage" "tag \<notin> dom (tagToKeys (deletions ?o))"
    "tagToKeys (origin ?o) tag = Some ks" "deletions ?o = emptyStorage" "origin ?o = storage c"
    using assms(1,2) by (simp_all add: open_tx_idle emptyStorage_def)
  note p = Invalidate_step_pure [where rng = rng and deleted = "[]", OF o(1) o(2) o(3) assms(3)]
  show "items (storage (fst (db_Invalidate rng c [tag]))) = items (storage c) |` (- insert tag ks)"
    by (simp add: db_Invalidate_eq publish_ok merge_def p o emptyStorage_def)
  show "tagToKeys (storage (fst (db_Invalidate rng c [tag]))) =
           tagToKeys (storage c) |` (- insert tag (\<Union>k\<in>insert tag ks. set_of (keyToTags (storage c) k)))"
    by (simp add: db_Invalidate_eq publish_ok merge_def p o emptyStorage_def)
  show "keyToTags (storage (fst (db_Invalidate rng c [tag]))) = keyToTags (storage c)"
    by (simp add: db_Invalidate_eq publish_ok merge_def p o emptyStorage_def restrict_map_def)
  show "set (snd (db_Invalidate rng c [tag])) = insert tag ks"
    by (simp add: db_Invalidate_eq p)
qed

lemma storage_NewDB [simp]: "storage NewDB = emptyStorage"
  by (simp add: NewDB_def)

lemma ex_two_tags_storage:
  "storage ex_two_tags =
     \<lparr>tagToKeys = (\<lambda>tag. if tag \<in> {''t1'', ''t2''} then Some {''k''} else None),
      keyToTags = [''k'' \<mapsto> {''t1'', ''t2''}],
      items = [''k'' \<mapsto> Any 1]\<rparr>"
  by (simp add: ex_two_tags_def db_Tag_storage db_Put_storage emptyStorage_def set_of_def
      cong: if_cong)

section \<open>Properties of the transaction overlay\<close>

lemma open_tx_origin [simp]: "origin (open_tx c) = storage c"
  by (simp add: open_tx_def)

lemma open_tx_deletions: "idle c \<Longrightarrow> deletions (open_tx c) = emptyStorage"
  by (simp add: open_tx_idle)

lemma ex_db_idle [simp]: "idle ex_db"
  by (simp add: ex_db_def)

lemma ex_db_storage:
  "storage ex_db =
     \<lparr>tagToKeys = (\<lambda>tag. if tag = ''t'' then Some {''k''} else None),
      keyToTags = [''k'' \<mapsto> {''t''}],
      items = [''k'' \<mapsto> Any 1, ''j'' \<mapsto> Any 5]\<rparr>"
  by (simp add: ex_db_def db_Tag_storage db_Put_storage emptyStorage_def set_of_def cong: if_cong)

lemma ex_overlay_facts:
  "origin ex_overlay = storage ex_db"
  "items (additions ex_overlay) = [''k'' \<mapsto> Any 2]"
  "dom (items (deletions ex_overlay)) = {''t'', ''k''}"
proof -
  let ?o = "open_tx ex_db"
  have o: "additions ?o = emptyStorage" "''t'' \<notin> dom (tagToKeys (deletions ?o))"
    "tagToKeys (origin ?o) ''t'' = Some {''k''}" "set ((\<lambda>ks. [''k'']) {''k''}) = {''k''}"
    by (simp_all add: open_tx_idle emptyStorage_def ex_db_storage)
  note p = Invalidate_step_pure [where rng = "\<lambda>ks. [''k'']" and deleted = "[]", OF o]
  show "origin ex_overlay = storage ex_db"
    by (simp add: ex_overlay_def Invalidate_single p)
  show "items (additions ex_overlay) = [''k'' \<mapsto> Any 2]"
    by (simp add: ex_overlay_def Invalidate_single p emptyStorage_def)
  show "dom (items (deletions ex_overlay)) = {''t'', ''k''}"
    by (simp add: ex_overlay_def Invalidate_single p open_tx_deletions emptyStorage_def)
qed

lemma ex_test_db_tag: "tagToKeys (storage ex_test_db) ''1'' = Some {''bar'', ''foo''}"
  by (simp add: ex_test_db_def db_Tag_storage db_Put_storage emptyStorage_def set_of_def)

text \<open>
  The overlay reports a key that is in the origin and marked deleted as present, with a
  nil value: the bare \<open>return\<close> yields the \<open>ok\<close> of the lookup in the deletions.
\<close>

lemma Get_deleted_in_origin:
  "items (additions c) key = None \<Longrightarrow> items (origin c) key = Some v \<Longrightarrow>
     key \<in> dom (items (deletions c)) \<Longrightarrow> transaction_Get c key = (AnyNil, True)"
  by (simp add: transaction_Get_def)

text \<open>
  C5 (as stated, refuted). The claim puts the deletions first. In \<open>ex_overlay\<close> the key
  \<open>k\<close> was invalidated and then put again: it is in the deletions, and \<open>Get\<close> returns the
  added value with \<open>ok = true\<close>.
\<close>

theorem C5_deletions_do_not_win:
  "''k'' \<in> dom (items (deletions ex_overlay)) \<and> transaction_Get ex_overlay ''k'' = (Any 2, True)"
  by (simp add: ex_overlay_facts transaction_Get_def)

text \<open>
  C5 (amended). The additions win: a key of the additions yields the added value with
  \<open>ok = true\<close>, also when it is in the deletions. A key that is in neither the additions
  nor the deletions yields what the origin has for it, and a key that neither the
  additions nor the origin have is absent.
\<close>

theorem C5_Get_precedence:
  "(items (additions c) key = Some val \<longrightarrow> transaction_Get c key = (val, True)) \<and>
   (items (additions c) key = None \<and> key \<notin> dom (items (deletions c)) \<longrightarrow>
      transaction_Get c key = cacheView_Get (origin c) key) \<and>
   (items (additions c) key = None \<and> items (origin c) key = None \<longrightarrow>
      transaction_Get c key = (AnyNil, False))"
  by (auto simp: transaction_Get_def cacheView_Get_def split: option.splits)

theorem C5_Get_precedence_witness:
  "items (additions ex_overlay) ''k'' = Some (Any 2) \<and>
   transaction_Get ex_overlay ''k'' = (Any 2, True) \<and>
   items (additions ex_overlay) ''j'' = None \<and> ''j'' \<notin> dom (items (deletions ex_overlay)) \<and>
   transaction_Get ex_overlay ''j'' = (Any 5, True) \<and>
   items (additions ex_overlay) ''m'' = None \<and> items (origin ex_overlay) ''m'' = None \<and>
   transaction_Get ex_overlay ''m'' = (AnyNil, False)"
proof -
  have k: "items (additions ex_overlay) ''k'' = Some (Any 2)"
    by (simp add: ex_overlay_facts)
  have j: "items (additions ex_overlay) ''j'' = None" "''j'' \<notin> dom (items (deletions ex_overlay))"
    "cacheView_Get (origin ex_overlay) ''j'' = (Any 5, True)"
    by (simp_all add: ex_overlay_facts ex_db_storage cacheView_Get_def)
  have m: "items (additions ex_overlay) ''m'' = None" "items (origin ex_overlay) ''m'' = None"
    by (simp_all add: ex_overlay_facts ex_db_storage)
  from C5_Get_precedence [of ex_overlay "''k''" "Any 2"] k
  have 1: "transaction_Get ex_overlay ''k'' = (Any 2, True)" by simp
  from C5_Get_precedence [of ex_overlay "''j''"] j
  have 2: "transaction_Get ex_overlay ''j'' = (Any 5, True)" by simp
  from C5_Get_precedence [of ex_overlay "''m''"] m
  have 3: "transaction_Get ex_overlay ''m'' = (AnyNil, False)" by simp
  from k j m 1 2 3 show ?thesis by simp
qed

lemma Iter_loop_ok: "Iter_loop get True fn ks w = w"
  by (induction ks) auto

text \<open>
  \<open>transaction.Iter\<close> never calls \<open>fn\<close>: it returns at once, or panics, or ranges over an
  empty set.
\<close>

lemma Iter_never_visits:
  "transaction_Iter rng c tag fn w = Inr w \<or> transaction_Iter rng c tag fn w = Inl NilMapWrite"
  by (auto simp: transaction_Iter_def Iter_loop_ok split: option.splits)

text \<open>
  C4. The overlay's \<open>Iter\<close> is claimed to visit each key of the tag once and never to
  panic. On the overlay opened on the test's store, whose tag \<open>1\<close> holds \<open>foo\<close> and \<open>bar\<close>,
  \<open>Iter\<close> of \<open>1\<close> panics on the copy into the nil map \<open>keys\<close>, for every \<open>visit\<close>.
\<close>

theorem C4_Iter_panics:
  "transaction_Iter rng (open_tx ex_test_db) ''1'' visit w = Inl NilMapWrite"
proof -
  have "idle ex_test_db" by (simp add: ex_test_db_def)
  then show ?thesis
    by (simp add: transaction_Iter_def open_tx_idle ex_test_db_tag emptyStorage_def set_of_def)
qed

section \<open>Atomicity of Update\<close>

text \<open>
  C1. \<open>Update\<close> is atomic. When the callback returns an error, the live snapshot after
  \<open>Update\<close> is the one before it, whatever the callback did to the overlay. When it returns
  nil, the live snapshot shows the overlay it left: a key of the additions has the added
  value, a key that is only in the deletions is gone, any other key is as before; and
  likewise for the two tag maps.
\<close>

theorem C1_Update_atomic:
  "(updateFn (open_tx c) s = Inr (Some e, c', s') \<longrightarrow>
      (\<exists>d. Update c updateFn s = Inr (Some e, d, s') \<and> storage d = storage c)) \<and>
   (updateFn (open_tx c) s = Inr (None, c', s') \<longrightarrow>
      (\<exists>d. Update c updateFn s = Inr (None, d, s') \<and>
         (\<forall>key. cacheView_Get (storage d) key =
            (case items (additions c') key of
               Some v \<Rightarrow> (v, True)
             | None \<Rightarrow> if key \<in> dom (items (deletions c')) then (AnyNil, False)
                       else cacheView_Get (storage c) key)) \<and>
         (\<forall>tag. tagToKeys (storage d) tag =
            (case tagToKeys (additions c') tag of
               Some ks \<Rightarrow> Some ks
             | None \<Rightarrow> if tag \<in> dom (tagToKeys (deletions c')) then None
                       else tagToKeys (storage c) tag)) \<and>
         (\<forall>key. keyToTags (storage d) key =
            (case keyToTags (additions c') key of
               Some ts \<Rightarrow> Some ts
             | None \<Rightarrow> if key \<in> dom (keyToTags (deletions c')) then None
                       else keyToTags (storage c) key))))"
proof (intro conjI impI)
  assume "updateFn (open_tx c) s = Inr (Some e, c', s')"
  then show "\<exists>d. Update c updateFn s = Inr (Some e, d, s') \<and> storage d = storage c"
    by (simp add: Update_def publish_error)
next
  assume "updateFn (open_tx c) s = Inr (None, c', s')"
  then show "\<exists>d. Update c updateFn s = Inr (None, d, s') \<and>
         (\<forall>key. cacheView_Get (storage d) key =
            (case items (additions c') key of
               Some v \<Rightarrow> (v, True)
             | None \<Rightarrow> if key \<in> dom (items (deletions c')) then (AnyNil, False)
                       else cacheView_Get (storage c) key)) \<and>
         (\<forall>tag. tagToKeys (storage d) tag =
            (case tagToKeys (additions c') tag of
               Some ks \<Rightarrow> Some ks
             | None \<Rightarrow> if tag \<in> dom (tagToKeys (deletions c')) then None
                       else tagToKeys (storage c) tag)) \<and>
         (\<forall>key. keyToTags (storage d) key =
            (case keyToTags (additions c') key of
               Some ts \<Rightarrow> Some ts
             | None \<Rightarrow> if key \<in> dom (keyToTags (deletions c')) then None
                       else keyToTags (storage c) key))"
    by (simp add: Update_def publish_ok cacheView_Get_def merge_items merge_tagToKeys
        merge_keyToTags split: option.splits)
qed

theorem C1_Update_atomic_witness:
  "(\<exists>d. Update (NewDB :: nat db) (\<lambda>w u. Inr (Some ''boom'', Put w ''k'' (Any 1), u)) ()
          = Inr (Some ''boom'', d, ()) \<and>
        storage d = storage NewDB \<and> db_Get d ''k'' = (AnyNil, False)) \<and>
   (\<exists>d. Update (NewDB :: nat db) (\<lambda>w u. Inr (None :: string option, Put w ''k'' (Any 1), u)) ()
          = Inr (None, d, ()) \<and>
        db_Get d ''k'' = (Any 1, True))"
proof -
  have a: "(\<lambda>w u. Inr (Some ''boom'', Put w ''k'' (Any (1::nat)), u)) (open_tx NewDB) ()
           = Inr (Some ''boom'', Put (open_tx NewDB) ''k'' (Any 1), ())"
    by simp
  have b: "(\<lambda>w u. Inr (None :: string option, Put w ''k'' (Any (1::nat)), u)) (open_tx NewDB) ()
           = Inr (None, Put (open_tx NewDB) ''k'' (Any 1), ())"
    by simp
  have g: "db_Get (NewDB :: nat db) ''k'' = (AnyNil, False)"
    by (simp add: db_Get_def cacheView_Get_def emptyStorage_def)
  have ad: "items (additions (Put (open_tx (NewDB :: nat db)) ''k'' (Any 1))) ''k'' = Some (Any 1)"
    by simp
  from C1_Update_atomic [of "\<lambda>w u. Inr (Some ''boom'', Put w ''k'' (Any (1::nat)), u)" NewDB "()"
      "''boom''" "Put (open_tx NewDB) ''k'' (Any 1)" "()"] a g
  have 1: "\<exists>d. Update (NewDB :: nat db) (\<lambda>w u. Inr (Some ''boom'', Put w ''k'' (Any 1), u)) ()
             = Inr (Some ''boom'', d, ()) \<and>
           storage d = storage NewDB \<and> db_Get d ''k'' = (AnyNil, False)"
    by (auto simp: db_Get_def)
  from C1_Update_atomic [of "\<lambda>w u. Inr (None :: string option, Put w ''k'' (Any (1::nat)), u)"
      NewDB "()" _ "Put (open_tx NewDB) ''k'' (Any 1)" "()"] b ad
  have 2: "\<exists>d. Update (NewDB :: nat db) (\<lambda>w u. Inr (None :: string option, Put w ''k'' (Any 1), u)) ()
             = Inr (None, d, ()) \<and>
           db_Get d ''k'' = (Any 1, True)"
    by (auto simp: db_Get_def)
  from 1 2 show ?thesis by blast
qed

section \<open>Invalidate on the store\<close>

lemma visit_loop_cong:
  "(\<And>k. k \<in> set ks \<Longrightarrow> fn' k = fn k) \<Longrightarrow> visit_loop get fn' ks w = visit_loop get fn ks w"
  by (induction ks arbitrary: w) (auto split: prod.splits)

text \<open>
  \<open>Iter\<close> on the live snapshot calls \<open>fn\<close> on listed keys only: what \<open>fn\<close> does on a key
  outside the tag's key set has no effect on the iteration.
\<close>

lemma Iter_ignores_unlisted:
  assumes "k \<notin> set_of (tagToKeys c tag)"
    and "set (rng (set_of (tagToKeys c tag))) \<subseteq> set_of (tagToKeys c tag)"
    and "\<And>k'. k' \<noteq> k \<Longrightarrow> fn' k' = fn k'"
  shows "cacheView_Iter rng c tag fn' w = cacheView_Iter rng c tag fn w"
proof (cases "tagToKeys c tag")
  case None
  then show ?thesis by (simp add: cacheView_Iter_def)
next
  case (Some ks)
  have "visit_loop (cacheView_Get c) fn' (rng ks) w = visit_loop (cacheView_Get c) fn (rng ks) w"
  proof (rule visit_loop_cong)
    fix k'
    assume "k' \<in> set (rng ks)"
    with assms(1,2) Some have "k' \<noteq> k" by auto
    then show "fn' k' = fn k'" by (rule assms(3))
  qed
  with Some show ?thesis by (simp add: cacheView_Iter_def)
qed

text \<open>
  C6 (as stated, refuted). In \<open>ex_two_tags\<close> the key \<open>k\<close> is stored and tagged with
  exactly \<open>t1\<close> and \<open>t2\<close>. After \<open>Invalidate(t2)\<close> the key is not found.
\<close>

theorem C6_key_is_deleted:
  "db_Get ex_two_tags ''k'' = (Any 1, True) \<and>
   keyToTags (storage ex_two_tags) ''k'' = Some {''t1'', ''t2''} \<and>
   db_Get (fst (db_Invalidate (\<lambda>ks. [''k'']) ex_two_tags [''t2''])) ''k'' = (AnyNil, False)"
proof -
  have i: "idle ex_two_tags" by (simp add: ex_two_tags_def)
  have t: "tagToKeys (storage ex_two_tags) ''t2'' = Some {''k''}"
    by (simp add: ex_two_tags_storage)
  have "items (storage (fst (db_Invalidate (\<lambda>ks. [''k'']) ex_two_tags [''t2'']))) ''k'' = None"
    by (simp add: db_Invalidate_one(1) [where rng = "\<lambda>ks. [''k'']", OF i t] restrict_map_def)
  then show ?thesis
    by (simp add: db_Get_def cacheView_Get_def ex_two_tags_storage)
qed

text \<open>
  C6 (amended). \<open>Invalidate\<close> deletes every key bound to the tag: for a key \<open>k\<close> bound to
  \<open>t2\<close> and tagged \<open>t1\<close> as well, after \<open>Invalidate(t2)\<close> completes \<open>Get(k)\<close> reports
  \<open>ok = false\<close>, \<open>k\<close> is among the deleted keys returned, and \<open>k\<close> is in the key set of
  neither \<open>t1\<close> nor \<open>t2\<close>, so that \<open>Iter\<close> of either tag does not enumerate it
  (\<open>Iter_ignores_unlisted\<close>).
\<close>

theorem C6_Invalidate_deletes_key:
  assumes "idle c" and "tagToKeys (storage c) t2 = Some ks" and "k \<in> ks" and "set (rng ks) = ks"
    and "t1 \<in> set_of (keyToTags (storage c) k)"
  shows "db_Get (fst (db_Invalidate rng c [t2])) k = (AnyNil, False) \<and>
         k \<in> set (snd (db_Invalidate rng c [t2])) \<and>
         k \<notin> set_of (tagToKeys (storage (fst (db_Invalidate rng c [t2]))) t1) \<and>
         k \<notin> set_of (tagToKeys (storage (fst (db_Invalidate rng c [t2]))) t2)"
proof -
  note r = db_Invalidate_one [where rng = rng, OF assms(1,2,4)]
  have 1: "db_Get (fst (db_Invalidate rng c [t2])) k = (AnyNil, False)"
    using assms(3) by (simp add: db_Get_def cacheView_Get_def r(1) restrict_map_def)
  have 2: "k \<in> set (snd (db_Invalidate rng c [t2]))"
    using assms(3) by (simp add: r(4))
  have 3: "tagToKeys (storage (fst (db_Invalidate rng c [t2]))) t1 = None"
    using assms(3,5) by (auto simp: r(2) restrict_map_def)
  have 4: "tagToKeys (storage (fst (db_Invalidate rng c [t2]))) t2 = None"
    by (simp add: r(2) restrict_map_def)
  from 1 2 3 4 show ?thesis by (simp add: set_of_def)
qed

theorem C6_Invalidate_deletes_key_witness:
  "idle ex_two_tags \<and> tagToKeys (storage ex_two_tags) ''t2'' = Some {''k''} \<and>
   ''t1'' \<in> set_of (keyToTags (storage ex_two_tags) ''k'') \<and>
   db_Get (fst (db_Invalidate (\<lambda>ks. [''k'']) ex_two_tags [''t2''])) ''k'' = (AnyNil, False) \<and>
   ''k'' \<in> set (snd (db_Invalidate (\<lambda>ks. [''k'']) ex_two_tags [''t2''])) \<and>
   ''k'' \<notin> set_of (tagToKeys (storage (fst (db_Invalidate (\<lambda>ks. [''k'']) ex_two_tags [''t2'']))) ''t1'') \<and>
   ''k'' \<notin> set_of (tagToKeys (storage (fst (db_Invalidate (\<lambda>ks. [''k'']) ex_two_tags [''t2'']))) ''t2'')"
proof -
  have i: "idle ex_two_tags" by (simp add: ex_two_tags_def)
  have t: "tagToKeys (storage ex_two_tags) ''t2'' = Some {''k''}"
    by (simp add: ex_two_tags_storage)
  have m: "''k'' \<in> {''k''}" "set ((\<lambda>ks. [''k'']) {''k''}) = {''k''}" by simp_all
  have g: "''t1'' \<in> set_of (keyToTags (storage ex_two_tags) ''k'')"
    by (simp add: ex_two_tags_storage set_of_def)
  from C6_Invalidate_deletes_key [where rng = "\<lambda>ks. [''k'']", OF i t m g] i t g show ?thesis by simp
qed

section \<open>Consistency of the snapshot\<close>

lemma run_wop_frame [simp]:
  "origin (run_wop op c) = origin c"
  "deletions (run_wop op c) = deletions c"
  by (cases op; simp)+

lemma run_wops_frame [simp]:
  "origin (run_wops ops c) = origin c"
  "deletions (run_wops ops c) = deletions c"
  unfolding run_wops_def by (induction ops arbitrary: c) simp_all

lemma run_wop_agrees: "overlay_agrees c \<Longrightarrow> overlay_agrees (run_wop op c)"
  by (cases op) (auto simp: overlay_agrees_def eff_tags_Tag eff_keys_Tag)

lemma run_wops_agrees: "overlay_agrees c \<Longrightarrow> overlay_agrees (run_wops ops c)"
  unfolding run_wops_def by (induction ops arbitrary: c) (simp_all add: run_wop_agrees)

lemma run_wop_dom_items:
  "dom (items (additions (run_wop op c))) = dom (items (additions c)) \<union> put_key op"
  by (cases op) simp_all

lemma run_wop_dom_keyToTags:
  "dom (keyToTags (additions (run_wop op c))) = dom (keyToTags (additions c)) \<union> tag_key op"
  by (cases op) (simp_all add: Tag_keyToTags)

lemma run_wops_dom_items:
  "dom (items (additions (run_wops ops c))) = dom (items (additions c)) \<union> (\<Union>op\<in>set ops. put_key op)"
  unfolding run_wops_def by (induction ops arbitrary: c) (auto simp: run_wop_dom_items)

lemma run_wops_dom_keyToTags:
  "dom (keyToTags (additions (run_wops ops c))) =
     dom (keyToTags (additions c)) \<union> (\<Union>op\<in>set ops. tag_key op)"
  unfolding run_wops_def by (induction ops arbitrary: c) (auto simp: run_wop_dom_keyToTags)

lemma merge_shows_overlay:
  assumes "deletions c = emptyStorage"
  shows "set_of (keyToTags (merge (origin c) c) key) = eff_tags c key"
    and "set_of (tagToKeys (merge (origin c) c) tag) = eff_keys c tag"
proof -
  have "keyToTags (deletions c) = Map.empty" "tagToKeys (deletions c) = Map.empty"
    by (simp_all add: assms emptyStorage_def)
  then show "set_of (keyToTags (merge (origin c) c) key) = eff_tags c key"
    and "set_of (tagToKeys (merge (origin c) c) tag) = eff_keys c tag"
    by (simp_all add: merge_keyToTags merge_tagToKeys eff_tags_def eff_keys_def
        split: option.splits)
qed

lemma open_tx_agrees: "idle c \<Longrightarrow> tags_agree (storage c) \<Longrightarrow> overlay_agrees (open_tx c)"
  by (simp add: open_tx_idle overlay_agrees_def tags_agree_def)

lemma wops_tags_agree:
  assumes "idle c" and "tags_agree (storage c)"
  shows "tags_agree (merge (storage c) (run_wops ops (open_tx c)))"
proof -
  let ?c = "run_wops ops (open_tx c)"
  have d: "deletions ?c = emptyStorage" "origin ?c = storage c"
    using assms(1) by (simp_all add: open_tx_deletions)
  have a: "overlay_agrees ?c"
    using assms by (intro run_wops_agrees open_tx_agrees)
  from merge_shows_overlay [OF d(1)] d(2) a show ?thesis
    by (simp add: tags_agree_def overlay_agrees_def)
qed

lemma merge_dom_no_deletions:
  assumes "deletions c = emptyStorage"
  shows "dom (items (merge s c)) = dom (items s) \<union> dom (items (additions c))"
    and "dom (keyToTags (merge s c)) = dom (keyToTags s) \<union> dom (keyToTags (additions c))"
proof -
  have m: "merge s c = \<lparr>tagToKeys = tagToKeys s ++ tagToKeys (additions c),
                keyToTags = keyToTags s ++ keyToTags (additions c),
                items = items s ++ items (additions c)\<rparr>"
    using assms by (rule merge_empty_deletions)
  show "dom (items (merge s c)) = dom (items s) \<union> dom (items (additions c))"
    unfolding m by auto
  show "dom (keyToTags (merge s c)) = dom (keyToTags s) \<union> dom (keyToTags (additions c))"
    unfolding m by auto
qed

lemma wops_keys_have_tags:
  assumes "idle c" and "keys_have_tags (storage c)"
    and "(\<Union>op\<in>set ops. put_key op) \<subseteq> (\<Union>op\<in>set ops. tag_key op)"
  shows "keys_have_tags (merge (storage c) (run_wops ops (open_tx c)))"
proof -
  let ?c = "run_wops ops (open_tx c)"
  have d: "deletions ?c = emptyStorage"
    using assms(1) by (simp add: open_tx_deletions)
  have e: "additions (open_tx c) = emptyStorage"
    using assms(1) by (simp add: open_tx_idle)
  have 1: "dom (items (additions ?c)) = (\<Union>op\<in>set ops. put_key op)"
    by (simp add: run_wops_dom_items e emptyStorage_def)
  have 2: "dom (keyToTags (additions ?c)) = (\<Union>op\<in>set ops. tag_key op)"
    by (simp add: run_wops_dom_keyToTags e emptyStorage_def)
  have 3: "dom (items (storage c)) \<subseteq> dom (keyToTags (storage c))"
    using assms(2) by (simp add: keys_have_tags_def)
  show ?thesis
    unfolding keys_have_tags_def merge_dom_no_deletions [OF d] 1 2
    using 3 assms(3) by blast
qed

lemma db_Put_as_wops: "db_Put c key val = publish c (None :: unit option) (run_wops [WPut key val] (open_tx c))"
  by (simp add: db_Put_def Update_def run_wops_def)

lemma db_Tag_as_wops: "db_Tag c key tags = publish c (None :: unit option) (run_wops [WTag key tags] (open_tx c))"
  by (simp add: db_Tag_def Update_def run_wops_def)

text \<open>
  C2 (as stated, refuted). \<open>Put\<close> stores the value and nothing else: the empty store is
  consistent, and after \<open>Put(foo, bar)\<close> the key \<open>foo\<close> is stored without an entry of tags.
\<close>

theorem C2_Put_breaks_consistency:
  "consistent (storage (NewDB :: string db)) \<and>
   \<not> consistent (storage (db_Put (NewDB :: string db) ''foo'' (Any ''bar'')))"
  by (simp add: consistent_def keys_have_tags_def tags_agree_def db_Put_storage emptyStorage_def)

text \<open>
  C2 (amended). \<open>Put\<close> and \<open>Tag\<close> preserve the agreement of key-to-tags and tag-to-keys,
  and \<open>Tag\<close> preserves that every stored key has an entry of tags. \<open>Put\<close> followed by
  \<open>Tag\<close> of the same key preserves the whole invariant, and so does every successful
  \<open>Update\<close> whose callback makes only \<open>Put\<close> and \<open>Tag\<close> calls and tags every key it puts.
\<close>

theorem C2_Put_Tag_preserve:
  assumes "idle c"
  shows
  "(tags_agree (storage c) \<longrightarrow>
      tags_agree (storage (db_Put c key val)) \<and> tags_agree (storage (db_Tag c key tags))) \<and>
   (keys_have_tags (storage c) \<longrightarrow> keys_have_tags (storage (db_Tag c key tags))) \<and>
   (consistent (storage c) \<longrightarrow> consistent (storage (db_Tag (db_Put c key val) key tags))) \<and>
   (\<forall>d. Update c (\<lambda>writer u. Inr (None :: unit option, run_wops ops writer, u)) ()
          = Inr (None, d, ()) \<longrightarrow>
        (tags_agree (storage c) \<longrightarrow> tags_agree (storage d)) \<and>
        (consistent (storage c) \<and> (\<Union>op\<in>set ops. put_key op) \<subseteq> (\<Union>op\<in>set ops. tag_key op) \<longrightarrow>
           consistent (storage d)))"
proof (intro conjI impI allI)
  assume "tags_agree (storage c)"
  then show "tags_agree (storage (db_Put c key val))" "tags_agree (storage (db_Tag c key tags))"
    using assms by (simp_all add: db_Put_as_wops db_Tag_as_wops publish_ok wops_tags_agree)
next
  assume "keys_have_tags (storage c)"
  then show "keys_have_tags (storage (db_Tag c key tags))"
    using assms by (simp add: db_Tag_as_wops publish_ok wops_keys_have_tags)
next
  assume a: "consistent (storage c)"
  have i: "idle (db_Put c key val)" by simp
  have t: "tags_agree (storage (db_Put c key val))"
    using a assms by (simp add: consistent_def db_Put_as_wops publish_ok wops_tags_agree)
  have k0: "dom (items (storage c)) \<subseteq> dom (keyToTags (storage c))"
    using a by (simp add: consistent_def keys_have_tags_def)
  have k: "dom (items (storage (db_Put c key val))) \<subseteq> insert key (dom (keyToTags (storage c)))"
    using k0 by (simp add: db_Put_storage [OF assms]) blast
  have "tags_agree (storage (db_Tag (db_Put c key val) key tags))"
    using t i by (simp add: db_Tag_as_wops publish_ok wops_tags_agree)
  moreover have "keys_have_tags (storage (db_Tag (db_Put c key val) key tags))"
    using k by (simp add: keys_have_tags_def db_Tag_storage [OF i] db_Put_storage [OF assms])
  ultimately show "consistent (storage (db_Tag (db_Put c key val) key tags))"
    by (simp add: consistent_def)
next
  fix d
  assume u: "Update c (\<lambda>writer u. Inr (None :: unit option, run_wops ops writer, u)) ()
          = Inr (None, d, ())"
  then have d: "storage d = merge (storage c) (run_wops ops (open_tx c))"
    by (auto simp: Update_def publish_ok)
  {
    assume "tags_agree (storage c)"
    then show "tags_agree (storage d)"
      using assms by (simp add: d wops_tags_agree)
  }
  {
    assume "consistent (storage c) \<and> (\<Union>op\<in>set ops. put_key op) \<subseteq> (\<Union>op\<in>set ops. tag_key op)"
    then show "consistent (storage d)"
      using assms by (simp add: d consistent_def wops_tags_agree wops_keys_have_tags)
  }
qed

theorem C2_Put_Tag_preserve_witness:
  "idle (NewDB :: string db) \<and> consistent (storage (NewDB :: string db)) \<and>
   tags_agree (storage (db_Put (NewDB :: string db) ''foo'' (Any ''bar''))) \<and>
   consistent (storage (db_Tag (db_Put (NewDB :: string db) ''foo'' (Any ''bar'')) ''foo''
                          [''1'', ''2'', ''3''])) \<and>
   (\<exists>d. Update (NewDB :: string db)
          (\<lambda>writer u. Inr (None :: unit option,
                           run_wops [WPut ''foo'' (Any ''bar''), WTag ''foo'' [''1'']] writer, u)) ()
          = Inr (None, d, ()) \<and>
        consistent (storage d))"
proof -
  have i: "idle (NewDB :: string db)" by simp
  have c: "consistent (storage (NewDB :: string db))"
    by (simp add: consistent_def keys_have_tags_def tags_agree_def emptyStorage_def)
  note T = C2_Put_Tag_preserve [OF i, where key = "''foo''" and val = "Any ''bar''"
      and tags = "[''1'', ''2'', ''3'']"
      and ops = "[WPut ''foo'' (Any ''bar''), WTag ''foo'' [''1'']]"]
  from c have a: "tags_agree (storage (NewDB :: string db))"
    by (simp add: consistent_def)
  from T a have 1: "tags_agree (storage (db_Put (NewDB :: string db) ''foo'' (Any ''bar'')))"
    by blast
  from T c have 2: "consistent (storage (db_Tag (db_Put (NewDB :: string db) ''foo'' (Any ''bar''))
      ''foo'' [''1'', ''2'', ''3'']))"
    by blast
  let ?d = "publish (NewDB :: string db) (None :: unit option)
              (run_wops [WPut ''foo'' (Any ''bar''), WTag ''foo'' [''1'']] (open_tx NewDB))"
  have u: "Update (NewDB :: string db)
          (\<lambda>writer u. Inr (None :: unit option,
                           run_wops [WPut ''foo'' (Any ''bar''), WTag ''foo'' [''1'']] writer, u)) ()
          = Inr (None, ?d, ())"
    by (simp add: Update_def)
  have s: "(\<Union>op\<in>set [WPut ''foo'' (Any ''bar''), WTag ''foo'' [''1'']]. put_key op)
             \<subseteq> (\<Union>op\<in>set [WPut ''foo'' (Any ''bar''), WTag ''foo'' [''1'']]. tag_key op)"
    by simp
  from T [THEN conjunct2, THEN conjunct2, THEN conjunct2, rule_format, OF u] c s
  have 3: "consistent (storage ?d)" by blast
  from i c 1 2 u 3 show ?thesis by blast
qed

lemma ex_shared_tag_storage:
  "storage ex_shared_tag =
     \<lparr>tagToKeys = (\<lambda>tag. if tag = ''t1'' then Some {''k2'', ''k1''}
                          else if tag = ''t2'' then Some {''k2''} else None),
      keyToTags = [''k1'' \<mapsto> {''t1''}, ''k2'' \<mapsto> {''t1'', ''t2''}],
      items = [''k1'' \<mapsto> Any 1, ''k2'' \<mapsto> Any 2]\<rparr>"
  by (simp add: ex_shared_tag_def db_Tag_storage db_Put_storage emptyStorage_def fun_eq_iff)

text \<open>
  \<open>Invalidate\<close> marks every tag of a deleted key as deleted, and the merge then drops the
  whole key set of such a tag: \<open>k1\<close>, tagged \<open>t1\<close> only, survives \<open>Invalidate(t2)\<close> and is
  no longer listed under \<open>t1\<close>, while its own entry still lists \<open>t1\<close>.
\<close>

lemma Invalidate_drops_shared_tag:
  "consistent (storage ex_shared_tag) \<and>
   db_Get (fst (db_Invalidate (\<lambda>ks. [''k2'']) ex_shared_tag [''t2''])) ''k1'' = (Any 1, True) \<and>
   tagToKeys (storage (fst (db_Invalidate (\<lambda>ks. [''k2'']) ex_shared_tag [''t2'']))) ''t1'' = None \<and>
   keyToTags (storage (fst (db_Invalidate (\<lambda>ks. [''k2'']) ex_shared_tag [''t2'']))) ''k1''
     = Some {''t1''} \<and>
   \<not> consistent (storage (fst (db_Invalidate (\<lambda>ks. [''k2'']) ex_shared_tag [''t2''])))"
proof -
  have i: "idle ex_shared_tag" by (simp add: ex_shared_tag_def)
  have t: "tagToKeys (storage ex_shared_tag) ''t2'' = Some {''k2''}"
    by (simp add: ex_shared_tag_storage)
  have e: "set ((\<lambda>ks. [''k2'']) {''k2''}) = {''k2''}" by simp
  note r = db_Invalidate_one [where rng = "\<lambda>ks. [''k2'']", OF i t e]
  have 0: "consistent (storage ex_shared_tag)"
    by (auto simp: consistent_def keys_have_tags_def tags_agree_def ex_shared_tag_storage
        split: if_splits)
  have 1: "db_Get (fst (db_Invalidate (\<lambda>ks. [''k2'']) ex_shared_tag [''t2''])) ''k1'' = (Any 1, True)"
    by (simp add: db_Get_def cacheView_Get_def r(1) ex_shared_tag_storage restrict_map_def)
  have 2: "tagToKeys (storage (fst (db_Invalidate (\<lambda>ks. [''k2'']) ex_shared_tag [''t2'']))) ''t1'' = None"
    by (simp add: r(2) ex_shared_tag_storage restrict_map_def)
  have 3: "keyToTags (storage (fst (db_Invalidate (\<lambda>ks. [''k2'']) ex_shared_tag [''t2'']))) ''k1''
     = Some {''t1''}"
    by (simp add: r(3) ex_shared_tag_storage)
  have "\<not> tags_agree (storage (fst (db_Invalidate (\<lambda>ks. [''k2'']) ex_shared_tag [''t2''])))"
  proof
    assume "tags_agree (storage (fst (db_Invalidate (\<lambda>ks. [''k2'']) ex_shared_tag [''t2''])))"
    then have "(''t1'' \<in> set_of (keyToTags (storage (fst (db_Invalidate (\<lambda>ks. [''k2''])
          ex_shared_tag [''t2'']))) ''k1'')) =
        (''k1'' \<in> set_of (tagToKeys (storage (fst (db_Invalidate (\<lambda>ks. [''k2''])
          ex_shared_tag [''t2'']))) ''t1''))"
      unfolding tags_agree_def by blast
    then show False by (simp add: 2 3)
  qed
  with 0 1 2 3 show ?thesis by (simp add: consistent_def)
qed

section \<open>GetOrFill\<close>

lemma publish_Some:
  "publish c (Some e) c' =
     \<lparr>storage = storage c,
      tx = \<lparr>origin = storage c, additions = emptyStorage, deletions = emptyStorage\<rparr>\<rparr>"
  by (simp add: publish_def Let_def)

lemma publish_None:
  "publish c None c' =
     \<lparr>storage = merge (storage c) c',
      tx = \<lparr>origin = merge (storage c) c', additions = emptyStorage, deletions = emptyStorage\<rparr>\<rparr>"
  by (simp add: publish_def Let_def)

lemma Get_open_tx: "idle c \<Longrightarrow> transaction_Get (open_tx c) key = db_Get c key"
  by (simp add: open_tx_idle transaction_Get_def db_Get_def cacheView_Get_def emptyStorage_def
      split: option.splits)

lemma db_Get_cases: "snd (db_Get c key) = False \<Longrightarrow> db_Get c key = (AnyNil, False)"
  by (simp add: db_Get_def cacheView_Get_def split: option.splits)

lemma GetOrFill_hit:
  "db_Get c key = (val, True) \<Longrightarrow> GetOrFill c key g tags w = Inr ((val, None), c, w)"
  by (simp add: GetOrFill_def)

lemma GetOrFill_miss_error:
  assumes "idle c" and "snd (db_Get c key) = False" and "fill w = ((val, Some e), w1)"
  shows "GetOrFill c key fill tags w =
           Inr ((val, Some e),
                \<lparr>storage = storage c,
                 tx = \<lparr>origin = storage c, additions = emptyStorage, deletions = emptyStorage\<rparr>\<rparr>,
                w1)"
  using assms
  by (simp add: GetOrFill_def db_Get_cases Update_def Get_open_tx publish_Some)

lemma GetOrFill_miss_filled:
  assumes "idle c" and "snd (db_Get c key) = False" and "fill w = ((val, None), w1)"
  shows "GetOrFill c key fill tags w =
           Inr ((val, None),
                \<lparr>storage = merge (storage c) (Tag (Put (open_tx c) key val) key tags),
                 tx = \<lparr>origin = merge (storage c) (Tag (Put (open_tx c) key val) key tags),
                        additions = emptyStorage, deletions = emptyStorage\<rparr>\<rparr>,
                w1)"
  using assms
  by (simp add: GetOrFill_def db_Get_cases Update_def Get_open_tx publish_None)

lemma filled_items:
  "items (merge s (Tag (Put c key val) key tags)) key = Some val"
  by (simp add: merge_items)

lemma GetOrFill_miss:
  assumes "idle c" and "snd (db_Get c key) = False"
  shows "\<exists>d. GetOrFill c key fill tags w = Inr (fst (fill w), d, snd (fill w)) \<and> idle d"
proof (cases "fill w")
  case (Pair r w1)
  obtain val err where r: "r = (val, err)" by (cases r)
  show ?thesis
  proof (cases err)
    case None
    with Pair r GetOrFill_miss_filled [OF assms, of fill w val w1 tags] show ?thesis
      by (simp add: idle_def)
  next
    case (Some e)
    with Pair r GetOrFill_miss_error [OF assms, of fill w val e w1 tags] show ?thesis
      by (simp add: idle_def)
  qed
qed

text \<open>
  C3. \<open>GetOrFill\<close> stores at most one fill result for a key. When the key is present,
  \<open>GetOrFill\<close> returns its value and neither calls the fill function (the caller's state
  \<open>w'\<close> is returned as it was, for every fill function) nor changes the store. When the
  key is absent and \<open>fill\<close> succeeds, its value is returned and stored, and every later
  \<open>GetOrFill\<close> of the key returns that value in the same way. When \<open>fill\<close> fails, its
  error is returned, the live snapshot is unchanged, and a later \<open>GetOrFill\<close> calls its
  fill function.
\<close>

theorem C3_GetOrFill_once:
  fixes fill :: "'w \<Rightarrow> ('v any \<times> 'e option) \<times> 'w"
  assumes "idle c"
  shows
  "(db_Get c key = (val, True) \<longrightarrow>
      (\<forall>(g :: 'w \<Rightarrow> ('v any \<times> 'e option) \<times> 'w) tags' w'.
         GetOrFill c key g tags' w' = Inr ((val, None), c, w'))) \<and>
   (snd (db_Get c key) = False \<and> fill w = ((val, None), wa) \<longrightarrow>
      (\<exists>d. GetOrFill c key fill tags w = Inr ((val, None), d, wa) \<and> idle d \<and>
           db_Get d key = (val, True) \<and>
           (\<forall>(g :: 'w \<Rightarrow> ('v any \<times> 'e option) \<times> 'w) tags' w'.
              GetOrFill d key g tags' w' = Inr ((val, None), d, w')))) \<and>
   (snd (db_Get c key) = False \<and> fill w = ((val, Some e), wa) \<longrightarrow>
      (\<exists>d. GetOrFill c key fill tags w = Inr ((val, Some e), d, wa) \<and> idle d \<and>
           storage d = storage c \<and>
           (\<forall>(g :: 'w \<Rightarrow> ('v any \<times> 'e option) \<times> 'w) tags' w'.
              \<exists>d'. GetOrFill d key g tags' w' = Inr (fst (g w'), d', snd (g w')))))"
proof (intro conjI impI)
  assume "db_Get c key = (val, True)"
  then show "\<forall>g tags' w'. GetOrFill c key g tags' w' = Inr ((val, None), c, w')"
    by (simp add: GetOrFill_hit)
next
  assume a: "snd (db_Get c key) = False \<and> fill w = ((val, None), wa)"
  let ?s = "merge (storage c) (Tag (Put (open_tx c) key val) key tags)"
  let ?d = "\<lparr>storage = ?s, tx = \<lparr>origin = ?s, additions = emptyStorage, deletions = emptyStorage\<rparr>\<rparr>"
  have 1: "GetOrFill c key fill tags w = Inr ((val, None), ?d, wa)"
    using a assms by (simp add: GetOrFill_miss_filled)
  have 2: "idle ?d" by (simp add: idle_def)
  have 3: "db_Get ?d key = (val, True)"
    by (simp add: db_Get_def cacheView_Get_def filled_items)
  have 4: "\<forall>g tags' w'. GetOrFill ?d key g tags' w' = Inr ((val, None), ?d, w')"
    using 3 by (simp add: GetOrFill_hit)
  from 1 2 3 4
  show "\<exists>d. GetOrFill c key fill tags w = Inr ((val, None), d, wa) \<and> idle d \<and>
           db_Get d key = (val, True) \<and>
           (\<forall>g tags' w'. GetOrFill d key g tags' w' = Inr ((val, None), d, w'))"
    by blast
next
  assume a: "snd (db_Get c key) = False \<and> fill w = ((val, Some e), wa)"
  let ?d = "\<lparr>storage = storage c,
             tx = \<lparr>origin = storage c, additions = emptyStorage, deletions = emptyStorage\<rparr>\<rparr>"
  have 1: "GetOrFill c key fill tags w = Inr ((val, Some e), ?d, wa)"
    using a assms by (simp add: GetOrFill_miss_error)
  have 2: "idle ?d" by (simp add: idle_def)
  have 3: "snd (db_Get ?d key) = False"
    using a by (simp add: db_Get_def)
  have 4: "\<forall>g tags' w'. \<exists>d'. GetOrFill ?d key g tags' w' = Inr (fst (g w'), d', snd (g w'))"
  proof (intro allI)
    fix g tags' w'
    from GetOrFill_miss [OF 2 3, of g tags' w']
    show "\<exists>d'. GetOrFill ?d key g tags' w' = Inr (fst (g w'), d', snd (g w'))"
      by blast
  qed
  from 1 2 4
  show "\<exists>d. GetOrFill c key fill tags w = Inr ((val, Some e), d, wa) \<and> idle d \<and>
           storage d = storage c \<and>
           (\<forall>g tags' w'. \<exists>d'. GetOrFill d key g tags' w' = Inr (fst (g w'), d', snd (g w')))"
    by (intro exI [of _ ?d]) simp
qed

theorem C3_GetOrFill_once_witness:
  "idle (NewDB :: string db) \<and> snd (db_Get (NewDB :: string db) ''foo'') = False \<and>
   (\<exists>d. GetOrFill (NewDB :: string db) ''foo''
           (\<lambda>n::nat. ((AnyNil, Some ''not found''), n + 1)) [] 0
          = Inr ((AnyNil, Some ''not found''), d, 1) \<and>
        storage d = storage NewDB) \<and>
   (\<exists>d. GetOrFill (NewDB :: string db) ''foo''
           (\<lambda>n::nat. ((Any ''barz'', None :: string option), n + 1)) [] 0
          = Inr ((Any ''barz'', None), d, 1) \<and>
        db_Get d ''foo'' = (Any ''barz'', True) \<and>
        GetOrFill d ''foo'' (\<lambda>n::nat. ((Any ''bar'', None :: string option), n + 1)) [] 1
          = Inr ((Any ''barz'', None), d, 1)) \<and>
   db_Get (db_Put (NewDB :: string db) ''foo'' (Any ''barz'')) ''foo'' = (Any ''barz'', True) \<and>
   GetOrFill (db_Put (NewDB :: string db) ''foo'' (Any ''barz'')) ''foo''
       (\<lambda>n::nat. ((Any ''bar'', None :: string option), n + 1)) [] 1
     = Inr ((Any ''barz'', None), db_Put NewDB ''foo'' (Any ''barz''), 1)"
proof -
  have i: "idle (NewDB :: string db)" by simp
  have m: "snd (db_Get (NewDB :: string db) ''foo'') = False"
    by (simp add: db_Get_def cacheView_Get_def emptyStorage_def)
  note E = C3_GetOrFill_once [OF i, where key = "''foo''" and val = AnyNil
      and fill = "\<lambda>n::nat. ((AnyNil, Some ''not found''), n + 1)" and w = 0 and wa = 1
      and e = "''not found''" and tags = "[]", THEN conjunct2, THEN conjunct2]
  have "\<exists>d. GetOrFill (NewDB :: string db) ''foo''
           (\<lambda>n::nat. ((AnyNil, Some ''not found''), n + 1)) [] 0
          = Inr ((AnyNil, Some ''not found''), d, 1) \<and> idle d \<and> storage d = storage NewDB \<and>
          (\<forall>(g :: nat \<Rightarrow> (string any \<times> string option) \<times> nat) tags' w'.
              \<exists>d'. GetOrFill d ''foo'' g tags' w' = Inr (fst (g w'), d', snd (g w')))"
    by (rule mp [OF E]) (simp add: m)
  then obtain d1 where 1: "GetOrFill (NewDB :: string db) ''foo''
           (\<lambda>n::nat. ((AnyNil, Some ''not found''), n + 1)) [] 0
          = Inr ((AnyNil, Some ''not found''), d1, 1)" "storage d1 = storage NewDB"
    by (elim exE conjE)
  note F = C3_GetOrFill_once [OF i, where key = "''foo''" and val = "Any ''barz''"
      and fill = "\<lambda>n::nat. ((Any ''barz'', None :: string option), n + 1)" and w = 0 and wa = 1
      and tags = "[]", THEN conjunct2, THEN conjunct1]
  have "\<exists>d. GetOrFill (NewDB :: string db) ''foo''
           (\<lambda>n::nat. ((Any ''barz'', None :: string option), n + 1)) [] 0
          = Inr ((Any ''barz'', None), d, 1) \<and> idle d \<and>
        db_Get d ''foo'' = (Any ''barz'', True) \<and>
        (\<forall>(g :: nat \<Rightarrow> (string any \<times> string option) \<times> nat) tags' w'.
              GetOrFill d ''foo'' g tags' w' = Inr ((Any ''barz'', None), d, w'))"
    by (rule mp [OF F]) (simp add: m)
  then obtain d2 where 2: "GetOrFill (NewDB :: string db) ''foo''
           (\<lambda>n::nat. ((Any ''barz'', None :: string option), n + 1)) [] 0
          = Inr ((Any ''barz'', None), d2, 1)" "db_Get d2 ''foo'' = (Any ''barz'', True)"
        "\<forall>(g :: nat \<Rightarrow> (string any \<times> string option) \<times> nat) tags' w'.
              GetOrFill d2 ''foo'' g tags' w' = Inr ((Any ''barz'', None), d2, w')"
    by (elim exE conjE)
  have r2: "GetOrFill d2 ''foo'' (\<lambda>n::nat. ((Any ''bar'', None :: string option), n + 1)) [] 1
          = Inr ((Any ''barz'', None), d2, 1)"
    using 2(3) by (elim allE)
  have i3: "idle (db_Put (NewDB :: string db) ''foo'' (Any ''barz''))" by simp
  have h3: "db_Get (db_Put (NewDB :: string db) ''foo'' (Any ''barz'')) ''foo'' = (Any ''barz'', True)"
    by (simp add: db_Get_def cacheView_Get_def db_Put_storage)
  note G = C3_GetOrFill_once [OF i3, where key = "''foo''" and val = "Any ''barz''", THEN conjunct1]
  have "\<forall>(g :: nat \<Rightarrow> (string any \<times> string option) \<times> nat) tags' w'.
         GetOrFill (db_Put (NewDB :: string db) ''foo'' (Any ''barz'')) ''foo'' g tags' w'
           = Inr ((Any ''barz'', None), db_Put NewDB ''foo'' (Any ''barz''), w')"
    by (rule mp [OF G]) (rule h3)
  then have 3: "GetOrFill (db_Put (NewDB :: string db) ''foo'' (Any ''barz'')) ''foo''
       (\<lambda>n::nat. ((Any ''bar'', None :: string option), n + 1)) [] 1
     = Inr ((Any ''barz'', None), db_Put NewDB ''foo'' (Any ''barz''), 1)"
    by (elim allE)
  show ?thesis
    using i m 1 2(1,2) r2 h3 3 by (intro conjI exI [of _ d1] exI [of _ d2])
qed

section \<open>Collections without an extractor\<close>

lemma Infer_extract: "extract_fn (fst (Infer box baseCol mapBy mapFn)) = None"
  by (simp add: Infer_def NewCollection_def With_def)

lemma ex_Load: "\<exists>writer'. Load Any ex_col (open_tx NewDB) = Inr writer'"
  by (simp add: ex_col_def NewCollection_def With_def Extractor_def PrimaryKey_def addIndex_def
      Load_def indexer_def loadItem_def tagItemWithIndexes_def Let_def)

text \<open>
  C10. A collection whose extract function is nil panics in \<open>Load\<close> and in \<open>Invalidate\<close>
  on the call of the nil function; the collection that \<open>Infer\<close> returns is such a
  collection; and \<open>Load\<close> returns only when an extractor was set.
\<close>

theorem C10_nil_extract_panics:
  "(extract_fn c = None \<longrightarrow>
      Load box c writer = Inl NilFuncCall \<and> Collection_Invalidate rng box c d = Inl NilFuncCall) \<and>
   extract_fn (fst (Infer box' baseCol mapBy mapFn)) = None \<and>
   ((\<exists>writer'. Load box c writer = Inr writer') \<longrightarrow> extract_fn c \<noteq> None)"
  by (auto simp: Load_def Collection_Invalidate_def Update_def Infer_extract
      split: prod.splits option.splits)

theorem C10_nil_extract_panics_witness:
  "extract_fn (NewCollection ''foo'' [] :: (nat, nat) Collection) = None \<and>
   Load Any (NewCollection ''foo'' [] :: (nat, nat) Collection) (open_tx NewDB) = Inl NilFuncCall \<and>
   Collection_Invalidate (\<lambda>ks. []) Any (NewCollection ''foo'' [] :: (nat, nat) Collection) NewDB
     = Inl NilFuncCall \<and>
   (\<exists>writer'. Load Any ex_col (open_tx NewDB) = Inr writer') \<and> extract_fn ex_col \<noteq> None"
proof -
  have h: "extract_fn (NewCollection ''foo'' [] :: (nat, nat) Collection) = None"
    by (simp add: NewCollection_def With_def)
  from C10_nil_extract_panics [where c = "NewCollection ''foo'' [] :: (nat, nat) Collection"
      and box = Any and writer = "open_tx NewDB" and rng = "\<lambda>ks. []" and d = NewDB
      and box' = "Any :: nat \<Rightarrow> nat any" and baseCol = ex_col and mapBy = "''m''"
      and mapFn = "\<lambda>n. []"] h
  have 1: "Load Any (NewCollection ''foo'' [] :: (nat, nat) Collection) (open_tx NewDB)
             = Inl NilFuncCall \<and>
           Collection_Invalidate (\<lambda>ks. []) Any (NewCollection ''foo'' [] :: (nat, nat) Collection)
             NewDB = Inl NilFuncCall"
    by simp
  from C10_nil_extract_panics [where c = ex_col
      and box = Any and writer = "open_tx NewDB" and rng = "\<lambda>ks. []" and d = NewDB
      and box' = "Any :: nat \<Rightarrow> nat any" and baseCol = ex_col and mapBy = "''m''"
      and mapFn = "\<lambda>n. []"] ex_Load
  have 2: "extract_fn ex_col \<noteq> None" by blast
  from h 1 2 ex_Load show ?thesis by simp
qed

section \<open>Inferred collections\<close>

text \<open>
  The closure of \<open>Infer\<close> loads the inferred items with the inferred collection as it is
  when the base collection is loaded: with the primary index set after \<open>Infer\<close>, the load
  of the base collection puts the inferred item and tags it with its kind and with the
  key of the base item; with the inferred collection as \<open>Infer\<close> returned it (no primary
  index), the load puts the base item only.
\<close>

lemma ex_Infer_load:
  "Load (\<lambda>item. Any (fst item))
     (snd (Infer Any ex_base ''foo-by-bar'' (\<lambda>item. [(fst item, snd item)])) ex_base ex_foo) w =
   Inr (Tag (Tag (Put (Tag (Put w ''bar{id:1}'' (Any ''1'')) ''bar{id:1}'' [''bar''])
                   ''foo-by-bar{id:x}'' (Any ''x'')) ''foo-by-bar{id:x}'' [''foo-by-bar''])
          ''foo-by-bar{id:x}'' [''bar{foo-by-bar:1}''])"
  by (simp add: Infer_def ex_foo_def ex_base_def NewCollection_def With_def Extractor_def
      PrimaryKey_def addIndex_def Load_def indexer_def loadItem_def tagItemWithIndexes_def
      Infer_fn_def Let_def mkKey_parts)

lemma ex_Infer_unset:
  "Load (\<lambda>item. Any (fst item))
     (snd (Infer Any ex_base ''foo-by-bar'' (\<lambda>item. [(fst item, snd item)])) ex_base
        (fst (Infer Any ex_base ''foo-by-bar'' (\<lambda>item. [(fst item, snd item)])))) w =
   Inr (Tag (Put w ''bar{id:1}'' (Any ''1'')) ''bar{id:1}'' [''bar''])"
  by (simp add: Infer_def ex_base_def NewCollection_def With_def Extractor_def
      PrimaryKey_def addIndex_def Load_def indexer_def loadItem_def tagItemWithIndexes_def
      Infer_fn_def Let_def mkKey_parts)

section \<open>Derivatives\<close>

lemma filled_tagToKeys:
  assumes "idle d" and "tag \<in> set tags"
  shows "tagToKeys (merge (storage d) (Tag (Put (open_tx d) key val) key tags)) tag
           = Some (insert key (set_of (tagToKeys (storage d) tag)))"
  using assms
  by (simp add: merge_tagToKeys Tag_tagToKeys eff_keys_def open_tx_idle emptyStorage_def)

text \<open>The result of \<open>Derive\<close> when the key is absent: the computation runs.\<close>

lemma Derive_miss:
  fixes fn :: "'a \<Rightarrow> 'w \<Rightarrow> ('out \<times> 'e option) \<times> 'w"
  assumes "idle d" and "idx_ref (pk col) = Some ref"
    and "snd (db_Get d (Derive_key col name (ref inp))) = False"
  shows "\<exists>d'. Derive box unbox col name fn d inp w =
           Inr (Derive_result box unbox (fst (fn inp w)), d', snd (fn inp w)) \<and> idle d'"
proof -
  let ?fill = "\<lambda>w0. (case fn inp w0 of ((out, err), w1) \<Rightarrow> ((box out, err), w1))"
  from GetOrFill_miss [OF assms(1,3), of ?fill "[kind col]" w]
  obtain d' where g: "GetOrFill d (Derive_key col name (ref inp)) ?fill [kind col] w =
      Inr (fst (?fill w), d', snd (?fill w))" and i: "idle d'"
    by blast
  show ?thesis
    by (rule exI [of _ d'])
      (simp add: Derive_def Derive_result_def assms(2) g i split: prod.splits option.splits)
qed

lemma Derive_hit:
  assumes "idx_ref (pk col) = Some ref"
    and "db_Get d (Derive_key col name (ref inp)) = (val, True)"
  shows "Derive box unbox col name fn d inp w =
           Inr ((case unbox val of None \<Rightarrow> Inl TypeAssertion | Some out \<Rightarrow> Inr out), d, w)"
  using assms by (simp add: Derive_def GetOrFill_hit split: option.splits)

lemma foldP_invariant:
  assumes "\<And>x s s'. x \<in> set xs \<Longrightarrow> Q s \<Longrightarrow> f x s = Inr s' \<Longrightarrow> Q s'"
    and "Q s" and "foldP f xs s = Inr s'"
  shows "Q s'"
  using assms
proof (induction xs arbitrary: s)
  case Nil
  then show ?case by simp
next
  case (Cons x xs)
  from Cons.prems(3) obtain s1 where s1: "f x s = Inr s1" and r: "foldP f xs s1 = Inr s'"
    by (auto split: sum.splits)
  have q: "Q s1" using Cons.prems(1) [of x s s1] Cons.prems(2) s1 by simp
  show ?case
  proof (rule Cons.IH [OF _ q r])
    fix y t t'
    assume "y \<in> set xs" "Q t" "f y t = Inr t'"
    then show "Q t'" using Cons.prems(1) [of y t t'] by simp
  qed
qed

lemma mark_Tag [simp]: "mark key (Tag c k tags) = mark key c"
  by (simp add: mark_def)

lemma mark_fold_Tag:
  "mark key (fold (\<lambda>v w'. Tag w' k [f v]) vs c) = mark key c"
  by (induction vs arbitrary: c) simp_all

lemma mark_Put: "k \<noteq> key \<Longrightarrow> mark key (Put c k val) = mark key c"
  by (simp add: mark_def)

lemma mark_infer:
  "leaves_alone key infer \<Longrightarrow> infer w item = Inr w' \<Longrightarrow> mark key w' = mark key w"
  by (auto simp: leaves_alone_def mark_def)

lemma mark_tagItemWithIndexes:
  assumes "tagItemWithIndexes c w k item = Inr w'"
  shows "mark key w' = mark key w"
proof (rule foldP_invariant [where Q = "\<lambda>s. mark key s = mark key w" and xs = "keys c" and s = w and
      f = "\<lambda>idx w. (case idx_ref idx of None \<Rightarrow> Inl NilFuncCall
          | Some ref \<Rightarrow> Inr (fold (\<lambda>v w'. Tag w' k [mkKey (kind c) (idx_key idx) v]) (ref item) w))"])
  show "mark key w = mark key w" by simp
  show "foldP (\<lambda>idx w. (case idx_ref idx of None \<Rightarrow> Inl NilFuncCall
          | Some ref \<Rightarrow> Inr (fold (\<lambda>v w'. Tag w' k [mkKey (kind c) (idx_key idx) v]) (ref item) w)))
        (keys c) w = Inr w'"
    using assms(1) by (simp add: tagItemWithIndexes_def)
next
  fix x s s'
  assume "mark key s = mark key w"
    and "(case idx_ref x of None \<Rightarrow> Inl NilFuncCall
          | Some ref \<Rightarrow> Inr (fold (\<lambda>v w'. Tag w' k [mkKey (kind c) (idx_key x) v]) (ref item) s)) = Inr s'"
  then show "mark key s' = mark key w"
    by (auto simp: mark_fold_Tag split: option.splits)
qed

lemma mark_loadItem:
  assumes "loadItem box c w k item = Inr w'" and "k \<noteq> key"
    and "\<forall>infer\<in>set (inferences c). leaves_alone key infer"
  shows "mark key w' = mark key w"
proof -
  from assms(1) obtain w1 where
    t: "tagItemWithIndexes c (Tag (Put w k (box item)) k [kind c]) k item = Inr w1"
    and f: "foldP (\<lambda>infer w'. infer w' item) (inferences c) w1 = Inr w'"
    by (auto simp: loadItem_def split: sum.splits)
  have g1: "mark key w1 = mark key w"
    using mark_tagItemWithIndexes [OF t, of key] assms(2) by (simp add: mark_Put)
  show ?thesis
  proof (rule foldP_invariant [where Q = "\<lambda>s. mark key s = mark key w", OF _ g1 f])
    fix x s s'
    assume "x \<in> set (inferences c)" "mark key s = mark key w" "x s item = Inr s'"
    then show "mark key s' = mark key w"
      using assms(3) mark_infer [of key x s item s'] by simp
  qed
qed

lemma mark_indexer:
  assumes "indexer c its (\<lambda>k item w. loadItem box c w k item) w = Inr w'"
    and "key \<notin> range (mkKey (kind c) (idx_key (pk c)))"
    and "\<forall>infer\<in>set (inferences c). leaves_alone key infer"
  shows "mark key w' = mark key w"
proof (cases "idx_ref (pk c)")
  case None
  with assms(1) show ?thesis by (simp add: indexer_def)
next
  case (Some ref)
  with assms(1) have f: "foldP (\<lambda>item. foldP (\<lambda>v w. loadItem box c w (mkKey (kind c) (idx_key (pk c)) v) item)
      (ref item)) its w = Inr w'"
    by (simp add: indexer_def)
  show ?thesis
  proof (rule foldP_invariant [where Q = "\<lambda>s. mark key s = mark key w", OF _ refl f])
    fix item s s'
    assume g: "mark key s = mark key w"
      and i: "foldP (\<lambda>v w. loadItem box c w (mkKey (kind c) (idx_key (pk c)) v) item) (ref item) s = Inr s'"
    show "mark key s' = mark key w"
    proof (rule foldP_invariant [where Q = "\<lambda>s. mark key s = mark key w", OF _ g i])
      fix v t t'
      assume a: "mark key t = mark key w"
        and b: "loadItem box c t (mkKey (kind c) (idx_key (pk c)) v) item = Inr t'"
      have n: "mkKey (kind c) (idx_key (pk c)) v \<noteq> key"
        using assms(2) by auto
      show "mark key t' = mark key w"
        using mark_loadItem [OF b n assms(3)] a by simp
    qed
  qed
qed

lemma mark_Load:
  assumes "Load box c w = Inr w'"
    and "key \<notin> range (mkKey (kind c) (idx_key (pk c)))"
    and "\<forall>infer\<in>set (inferences c). leaves_alone key infer"
  shows "mark key w' = mark key w"
proof -
  from assms(1) obtain batches where
    f: "foldP (\<lambda>its. indexer c its (\<lambda>k item w. loadItem box c w k item)) batches w = Inr w'"
    by (auto simp: Load_def split: option.splits)
  show ?thesis
  proof (rule foldP_invariant [where Q = "\<lambda>s. mark key s = mark key w", OF _ refl f])
    fix its s s'
    assume a: "mark key s = mark key w"
      and b: "indexer c its (\<lambda>k item w. loadItem box c w k item) s = Inr s'"
    show "mark key s' = mark key w"
      using mark_indexer [OF b assms(2,3)] a by simp
  qed
qed

lemma Collection_Invalidate_deletes:
  assumes "idle d" and "tagToKeys (storage d) (kind c) = Some ks" and "key \<in> ks"
    and "set (rng ks) = ks"
    and "key \<notin> range (mkKey (kind c) (idx_key (pk c)))"
    and "\<forall>infer\<in>set (inferences c). leaves_alone key infer"
    and "Collection_Invalidate rng box c d = Inr d'"
  shows "items (storage d') key = None" and "idle d'"
proof -
  let ?o = "open_tx d"
  let ?w = "fst (Invalidate rng ?o [kind c])"
  from assms(7) obtain w' where l: "Load box c ?w = Inr w'"
    and d': "d' = publish d (None :: unit option) w'"
    by (auto simp: Collection_Invalidate_def Update_def split: sum.splits)
  have o: "additions ?o = emptyStorage" "kind c \<notin> dom (tagToKeys (deletions ?o))"
    "tagToKeys (origin ?o) (kind c) = Some ks"
    using assms(1,2) by (simp_all add: open_tx_idle emptyStorage_def)
  note p = Invalidate_step_pure [where rng = rng and deleted = "[]", OF o assms(4)]
  have g: "mark key ?w = (True, None)"
    using assms(3) by (simp add: mark_def Invalidate_single p emptyStorage_def)
  have "mark key w' = mark key ?w"
    by (rule mark_Load [OF l assms(5,6)])
  with g show "items (storage d') key = None"
    by (simp add: d' publish_ok merge_items mark_def)
  show "idle d'" by (simp add: d' publish_idle)
qed

text \<open>\<open>Invalidate\<close> of a tag that has no key set does nothing.\<close>

lemma Invalidate_absent:
  "tag \<notin> dom (tagToKeys (deletions c)) \<Longrightarrow> tagToKeys (additions c) tag = None \<Longrightarrow>
   tagToKeys (origin c) tag = None \<Longrightarrow> Invalidate rng c [tag] = (c, [])"
  by (simp add: Invalidate_single Invalidate_step_def)

lemma merge_nothing:
  "additions c = emptyStorage \<Longrightarrow> deletions c = emptyStorage \<Longrightarrow> merge s c = s"
  by (simp add: merge_def emptyStorage_def restrict_map_def)

lemma db_Invalidate_absent:
  assumes "idle c" and "tagToKeys (storage c) tag = None"
  shows "snd (db_Invalidate rng c [tag]) = []"
    and "storage (fst (db_Invalidate rng c [tag])) = storage c"
proof -
  have o: "tag \<notin> dom (tagToKeys (deletions (open_tx c)))"
    "tagToKeys (additions (open_tx c)) tag = None" "tagToKeys (origin (open_tx c)) tag = None"
    using assms by (simp_all add: open_tx_idle emptyStorage_def)
  have s: "Invalidate_step rng tag (open_tx c, []) = (open_tx c, [])"
    using Invalidate_absent [OF o, of rng] by (simp add: Invalidate_single)
  show "snd (db_Invalidate rng c [tag]) = []"
    by (simp add: db_Invalidate_eq s)
  show "storage (fst (db_Invalidate rng c [tag])) = storage c"
    unfolding db_Invalidate_eq s using assms(1)
    by (simp add: publish_ok merge_nothing open_tx_idle)
qed

text \<open>
  When the kind has no key set, the collection's \<open>Invalidate\<close> deletes no key: a key
  that the load does not put is left as it is.
\<close>

lemma Collection_Invalidate_keeps:
  assumes "idle d" and "tagToKeys (storage d) (kind c) = None"
    and "key \<notin> range (mkKey (kind c) (idx_key (pk c)))"
    and "\<forall>infer\<in>set (inferences c). leaves_alone key infer"
    and "Collection_Invalidate rng box c d = Inr d'"
  shows "items (storage d') key = items (storage d) key" and "idle d'"
proof -
  let ?o = "open_tx d"
  have o: "kind c \<notin> dom (tagToKeys (deletions ?o))" "tagToKeys (additions ?o) (kind c) = None"
    "tagToKeys (origin ?o) (kind c) = None"
    using assms(1,2) by (simp_all add: open_tx_idle emptyStorage_def)
  have w: "fst (Invalidate rng ?o [kind c]) = ?o"
    by (simp add: Invalidate_absent [OF o])
  from assms(5) obtain w' where l: "Load box c ?o = Inr w'"
    and d': "d' = publish d (None :: unit option) w'"
    by (auto simp: Collection_Invalidate_def Update_def w split: sum.splits)
  have "mark key w' = mark key ?o"
    by (rule mark_Load [OF l assms(3,4)])
  also have "\<dots> = (False, None)"
    using assms(1) by (simp add: mark_def open_tx_idle emptyStorage_def)
  finally show "items (storage d') key = items (storage d) key"
    by (simp add: d' publish_ok merge_items mark_def)
  show "idle d'" by (simp add: d' publish_idle)
qed

text \<open>
  The key of a derivative: for an item whose primary index yields one value it is
  \<open>mkKey (kind + "/" + name) primaryAttr value\<close>, so that items with different primary
  values have different keys; and it is never the key of an item of the collection.
\<close>

lemma Derive_key_single:
  "Derive_key col name [v] = mkKey (kind col @ ''/'' @ name) (idx_key (pk col)) v"
  by (simp add: Derive_key_def)

lemma Derive_key_inj: "Derive_key col name [v] = Derive_key col name [v'] \<Longrightarrow> v = v'"
  by (simp add: Derive_key_single mkKey_parts)

lemma Derive_key_not_item_key:
  "Derive_key c name vs \<notin> range (mkKey (kind c) (idx_key (pk c)))"
proof
  assume "Derive_key c name vs \<in> range (mkKey (kind c) (idx_key (pk c)))"
  then obtain v where e: "Derive_key c name vs = mkKey (kind c) (idx_key (pk c)) v" by auto
  show False
  proof (cases vs rule: rev_cases)
    case Nil
    with e show False by (simp add: Derive_key_def mkKey_parts)
  next
    case (snoc vs' v')
    with e have "mkKey (kind c @ ''/'' @ name) (idx_key (pk c)) v' = mkKey (kind c) (idx_key (pk c)) v"
      by (simp add: Derive_key_def)
    then show False by (simp add: mkKey_parts)
  qed
qed

text \<open>Two calls of \<open>Tag\<close> for one key are one call with both lists of tags.\<close>

lemma Tag_init_idem: "Tag_init (Tag c key tags) key = Tag c key tags"
  by (simp add: Tag_init_def Tag_keyToTags)

lemma Tag_Tag: "Tag (Tag c key as) key bs = Tag c key (as @ bs)"
  by (simp add: Tag_def [of "Tag c key as"] Tag_init_idem) (simp add: Tag_def)

text \<open>\<open>Put\<close> and \<open>Tag\<close> in one \<open>Update\<close> leave the store that two updates leave.\<close>

lemma filled_storage:
  assumes "idle d"
  shows "merge (storage d) (Tag (Put (open_tx d) key val) key tags)
           = storage (db_Tag (db_Put d key val) key tags)"
  apply (rule storage_eqI)
    apply (simp_all add: db_Tag_storage db_Put_storage assms open_tx_idle merge_empty_deletions
      Tag_keyToTags Tag_tagToKeys cong: if_cong)
   apply (auto simp: map_add_def fun_eq_iff emptyStorage_def)
  done

lemma Derive_fills:
  fixes fn :: "'a \<Rightarrow> 'w \<Rightarrow> ('out \<times> 'e option) \<times> 'w"
  assumes "idle d" and "idx_ref (pk col) = Some ref"
    and "snd (db_Get d (Derive_key col name (ref inp))) = False"
    and "fn inp w = ((out, None), wa)" and "unbox (box out) = Some out"
  shows "\<exists>d1. Derive box unbox col name fn d inp w = Inr (Inr out, d1, wa) \<and> idle d1 \<and>
           storage d1 = storage (db_Tag (db_Put d (Derive_key col name (ref inp)) (box out))
                                   (Derive_key col name (ref inp)) [kind col])"
proof -
  let ?key = "Derive_key col name (ref inp)"
  let ?s = "merge (storage d) (Tag (Put (open_tx d) ?key (box out)) ?key [kind col])"
  let ?d1 = "\<lparr>storage = ?s, tx = \<lparr>origin = ?s, additions = emptyStorage, deletions = emptyStorage\<rparr>\<rparr>"
  let ?fill = "\<lambda>w0. (case fn inp w0 of ((out, err), w1) \<Rightarrow> ((box out, err), w1))"
  have f: "?fill w = ((box out, None), wa)"
    by (simp add: assms(4))
  have g: "GetOrFill d ?key ?fill [kind col] w = Inr ((box out, None), ?d1, wa)"
    using GetOrFill_miss_filled [where fill = ?fill and w = w, OF assms(1,3) f] .
  have 1: "Derive box unbox col name fn d inp w = Inr (Inr out, ?d1, wa)"
    by (simp add: Derive_def assms(2,5) g)
  have 2: "idle ?d1" by (simp add: idle_def)
  have 3: "storage ?d1 = storage (db_Tag (db_Put d ?key (box out)) ?key [kind col])"
    by (simp add: filled_storage [OF assms(1)])
  from 1 2 3 show ?thesis
    by - (rule exI [of _ ?d1], intro conjI, assumption+)
qed

text \<open>
  A derivative in an idle store where its key is absent. When the first call on an item
  computes a value, the value is stored under the derivative's key, the key is listed
  under the base kind, and a second call on an item with the same primary key value
  returns that value without running the computation (the caller's state is returned as
  it was, for every computation and whatever the other fields of the item are). From the
  store that the first call leaves, \<open>Invalidate\<close> of the base kind on the store, and
  \<open>Invalidate\<close> of the collection when its inferences leave the key alone, delete the key
  and the next call runs the computation again.
\<close>

lemma Derive_memoizes:
  fixes fn :: "'a \<Rightarrow> 'w \<Rightarrow> ('out \<times> 'e option) \<times> 'w"
  assumes "idle d" and "idx_ref (pk col) = Some ref"
    and "snd (db_Get d (Derive_key col name (ref inp))) = False"
    and "fn inp w = ((out, None), wa)" and "unbox (box out) = Some out"
  shows
  "\<exists>d1. Derive box unbox col name fn d inp w = Inr (Inr out, d1, wa) \<and> idle d1 \<and>
     db_Get d1 (Derive_key col name (ref inp)) = (box out, True) \<and>
     tagToKeys (storage d1) (kind col) =
       Some (insert (Derive_key col name (ref inp)) (set_of (tagToKeys (storage d) (kind col)))) \<and>
     (\<forall>(fn' :: 'a \<Rightarrow> 'w \<Rightarrow> ('out \<times> 'e option) \<times> 'w) inp' w'.
        ref inp' = ref inp \<longrightarrow>
        Derive box unbox col name fn' d1 inp' w' = Inr (Inr out, d1, w')) \<and>
     (\<forall>rng ks d2.
        tagToKeys (storage d1) (kind col) = Some ks \<and> set (rng ks) = ks \<and>
        (d2 = fst (db_Invalidate rng d1 [kind col]) \<or>
         (\<exists>box'. Collection_Invalidate rng box' col d1 = Inr d2) \<and>
         (\<forall>infer\<in>set (inferences col). leaves_alone (Derive_key col name (ref inp)) infer)) \<longrightarrow>
        snd (db_Get d2 (Derive_key col name (ref inp))) = False \<and>
        (\<forall>(fn' :: 'a \<Rightarrow> 'w \<Rightarrow> ('out \<times> 'e option) \<times> 'w) inp' w'.
           ref inp' = ref inp \<longrightarrow>
           (\<exists>d3. Derive box unbox col name fn' d2 inp' w' =
              Inr (Derive_result box unbox (fst (fn' inp' w')), d3, snd (fn' inp' w')))))"
proof -
  let ?key = "Derive_key col name (ref inp)"
  let ?s = "merge (storage d) (Tag (Put (open_tx d) ?key (box out)) ?key [kind col])"
  let ?d1 = "\<lparr>storage = ?s, tx = \<lparr>origin = ?s, additions = emptyStorage, deletions = emptyStorage\<rparr>\<rparr>"
  let ?fill = "\<lambda>w0. (case fn inp w0 of ((out, err), w1) \<Rightarrow> ((box out, err), w1))"
  have f: "?fill w = ((box out, None), wa)"
    by (simp add: assms(4))
  have g: "GetOrFill d ?key ?fill [kind col] w = Inr ((box out, None), ?d1, wa)"
    using GetOrFill_miss_filled [where fill = ?fill and w = w, OF assms(1,3) f] .
  have 1: "Derive box unbox col name fn d inp w = Inr (Inr out, ?d1, wa)"
    by (simp add: Derive_def assms(2,5) g)
  have 2: "idle ?d1" by (simp add: idle_def)
  have 3: "db_Get ?d1 ?key = (box out, True)"
    by (simp add: db_Get_def cacheView_Get_def filled_items)
  have 4: "tagToKeys (storage ?d1) (kind col) = Some (insert ?key (set_of (tagToKeys (storage d) (kind col))))"
    using filled_tagToKeys [OF assms(1), of "kind col" "[kind col]"] by simp
  have 5: "\<forall>(fn' :: 'a \<Rightarrow> 'w \<Rightarrow> ('out \<times> 'e option) \<times> 'w) inp' w'.
        ref inp' = ref inp \<longrightarrow>
        Derive box unbox col name fn' ?d1 inp' w' = Inr (Inr out, ?d1, w')"
  proof (intro allI impI)
    fix fn' :: "'a \<Rightarrow> 'w \<Rightarrow> ('out \<times> 'e option) \<times> 'w" and inp' w'
    assume r: "ref inp' = ref inp"
    have "db_Get ?d1 (Derive_key col name (ref inp')) = (box out, True)"
      using 3 r by simp
    from Derive_hit [OF assms(2) this, of box unbox fn' w']
    show "Derive box unbox col name fn' ?d1 inp' w' = Inr (Inr out, ?d1, w')"
      by (simp add: assms(5))
  qed
  have 6: "\<forall>rng ks d2.
        tagToKeys (storage ?d1) (kind col) = Some ks \<and> set (rng ks) = ks \<and>
        (d2 = fst (db_Invalidate rng ?d1 [kind col]) \<or>
         (\<exists>box'. Collection_Invalidate rng box' col ?d1 = Inr d2) \<and>
         (\<forall>infer\<in>set (inferences col). leaves_alone ?key infer)) \<longrightarrow>
        snd (db_Get d2 ?key) = False \<and>
        (\<forall>(fn' :: 'a \<Rightarrow> 'w \<Rightarrow> ('out \<times> 'e option) \<times> 'w) inp' w'.
           ref inp' = ref inp \<longrightarrow>
           (\<exists>d3. Derive box unbox col name fn' d2 inp' w' =
              Inr (Derive_result box unbox (fst (fn' inp' w')), d3, snd (fn' inp' w'))))"
  proof (intro allI impI)
    fix rng ks d2
    assume a: "tagToKeys (storage ?d1) (kind col) = Some ks \<and> set (rng ks) = ks \<and>
        (d2 = fst (db_Invalidate rng ?d1 [kind col]) \<or>
         (\<exists>box'. Collection_Invalidate rng box' col ?d1 = Inr d2) \<and>
         (\<forall>infer\<in>set (inferences col). leaves_alone ?key infer))"
    then have a1: "tagToKeys (storage ?d1) (kind col) = Some ks" and a2: "set (rng ks) = ks"
      by simp_all
    have k: "?key \<in> ks" using a1 4 by auto
    from a have "d2 = fst (db_Invalidate rng ?d1 [kind col]) \<or>
         (\<exists>box'. Collection_Invalidate rng box' col ?d1 = Inr d2) \<and>
         (\<forall>infer\<in>set (inferences col). leaves_alone ?key infer)"
      by simp
    then have mi: "items (storage d2) ?key = None \<and> idle d2"
    proof
      assume e: "d2 = fst (db_Invalidate rng ?d1 [kind col])"
      note r = db_Invalidate_one [where rng = rng, OF 2 a1 a2]
      show ?thesis
        using k by (simp add: e r(1) restrict_map_def)
    next
      assume "(\<exists>box'. Collection_Invalidate rng box' col ?d1 = Inr d2) \<and>
         (\<forall>infer\<in>set (inferences col). leaves_alone ?key infer)"
      then obtain box' where c: "Collection_Invalidate rng box' col ?d1 = Inr d2"
        and l: "\<forall>infer\<in>set (inferences col). leaves_alone ?key infer"
        by blast
      from Collection_Invalidate_deletes [where rng = rng, OF 2 a1 k a2
          Derive_key_not_item_key l c]
      show ?thesis by simp
    qed
    then have m: "snd (db_Get d2 ?key) = False" and i: "idle d2"
      by (simp_all add: db_Get_def cacheView_Get_def)
    have "\<forall>(fn' :: 'a \<Rightarrow> 'w \<Rightarrow> ('out \<times> 'e option) \<times> 'w) inp' w'.
           ref inp' = ref inp \<longrightarrow>
           (\<exists>d3. Derive box unbox col name fn' d2 inp' w' =
              Inr (Derive_result box unbox (fst (fn' inp' w')), d3, snd (fn' inp' w')))"
    proof (intro allI impI)
      fix fn' :: "'a \<Rightarrow> 'w \<Rightarrow> ('out \<times> 'e option) \<times> 'w" and inp' w'
      assume r: "ref inp' = ref inp"
      have m': "snd (db_Get d2 (Derive_key col name (ref inp'))) = False"
        using m r by simp
      from Derive_miss [OF i assms(2) m', of box unbox fn' w']
      show "\<exists>d3. Derive box unbox col name fn' d2 inp' w' =
              Inr (Derive_result box unbox (fst (fn' inp' w')), d3, snd (fn' inp' w'))"
        by blast
    qed
    with m show "snd (db_Get d2 ?key) = False \<and>
        (\<forall>(fn' :: 'a \<Rightarrow> 'w \<Rightarrow> ('out \<times> 'e option) \<times> 'w) inp' w'.
           ref inp' = ref inp \<longrightarrow>
           (\<exists>d3. Derive box unbox col name fn' d2 inp' w' =
              Inr (Derive_result box unbox (fst (fn' inp' w')), d3, snd (fn' inp' w'))))"
      by (rule conjI)
  qed
  from 1 2 3 4 5 6 show ?thesis
    by - (rule exI [of _ ?d1], intro conjI, assumption+)
qed

lemma ex_bar_simps [simp]:
  "kind ex_bar = ''bar''"
  "idx_ref (pk ex_bar) = Some (\<lambda>item. [fst item])"
  "idx_key (pk ex_bar) = ''id''"
  "inferences ex_bar = []"
  by (simp_all add: ex_bar_def NewCollection_def With_def PrimaryKey_def AdditionalKey_def
      Extractor_def addIndex_def)

lemma ex_bar_Load:
  "Load (\<lambda>item. Any (snd item)) ex_bar w =
     Inr (Tag (Put w ''bar{id:1}'' (Any ''a'')) ''bar{id:1}'' [''bar'', ''bar{name:bar1}''])"
  by (simp add: ex_bar_def NewCollection_def With_def Extractor_def PrimaryKey_def
      AdditionalKey_def addIndex_def Load_def indexer_def loadItem_def tagItemWithIndexes_def
      Let_def Tag_Tag mkKey_parts)

lemma ex_bar_Invalidate:
  "\<exists>d'. Collection_Invalidate rng (\<lambda>item. Any (snd item)) ex_bar d = Inr d'"
  by (simp add: Collection_Invalidate_def Update_def ex_bar_Load)

lemma ex_bar_loaded:
  "\<exists>d1. Collection_Invalidate rng (\<lambda>item. Any (snd item)) ex_bar NewDB = Inr d1 \<and> idle d1 \<and>
     storage d1 = storage (db_Tag (db_Put NewDB ''bar{id:1}'' (Any ''a'')) ''bar{id:1}''
                             [''bar'', ''bar{name:bar1}''])"
proof -
  let ?o = "open_tx (NewDB :: string db)"
  have o: "''bar'' \<notin> dom (tagToKeys (deletions ?o))" "tagToKeys (additions ?o) ''bar'' = None"
    "tagToKeys (origin ?o) ''bar'' = None"
    by (simp_all add: open_tx_idle emptyStorage_def)
  have w: "fst (Invalidate rng ?o [''bar'']) = ?o"
    by (simp add: Invalidate_absent [OF o])
  let ?w = "Tag (Put ?o ''bar{id:1}'' (Any ''a'')) ''bar{id:1}'' [''bar'', ''bar{name:bar1}'']"
  have c: "Collection_Invalidate rng (\<lambda>item. Any (snd item)) ex_bar NewDB
             = Inr (publish NewDB (None :: unit option) ?w)"
    by (simp add: Collection_Invalidate_def Update_def w ex_bar_Load)
  have s: "storage (publish NewDB (None :: unit option) ?w) =
      storage (db_Tag (db_Put NewDB ''bar{id:1}'' (Any ''a'')) ''bar{id:1}''
                 [''bar'', ''bar{name:bar1}''])"
    by (simp only: publish_ok filled_storage [OF idle_NewDB])
  from c publish_idle [of NewDB "None :: unit option" ?w] s show ?thesis
    by - (rule exI [of _ "publish NewDB (None :: unit option) ?w"], intro conjI, assumption+)
qed


text \<open>
  C9. The key of the derivative \<open>regex-pattern\<close> for the item with the primary value \<open>1\<close>
  of the collection \<open>bar\<close> is \<open>bar/regex-pattern{id:1}\<close>, and \<open>Derive\<close> lists it under the
  base kind \<open>bar\<close>. Invalidating the base kind does not always delete the memoized value.
  The collection is loaded; the derivative of the item is computed (one call of the
  computation) and stored; \<open>Invalidate\<close> of the index tag \<open>bar{name:bar1}\<close> on the store
  deletes the item and drops the whole key set of the tag \<open>bar\<close>. After that,
  \<open>Invalidate\<close> of \<open>bar\<close> on the store deletes nothing, the collection's \<open>Invalidate\<close>
  leaves the derivative's key in the store, and the next call of the derivative, on the
  item with its pattern changed to \<open>b\<close>, returns the old value \<open>a\<close> without running the
  computation (the count of calls stays 1).
\<close>

theorem C9_stale_derivative:
  "Derive_key ex_bar ''regex-pattern'' [''1''] = ''bar/regex-pattern{id:1}'' \<and>
   (\<exists>d1 d2 d4.
      Collection_Invalidate (\<lambda>ks. [''bar{id:1}'']) (\<lambda>item. Any (snd item)) ex_bar NewDB = Inr d1 \<and>
      Derive Any ex_unbox ex_bar ''regex-pattern'' ex_pattern d1 (''1'', ''a'') 0
        = Inr (Inr ''a'', d2, 1) \<and>
      db_Get d2 ''bar/regex-pattern{id:1}'' = (Any ''a'', True) \<and>
      tagToKeys (storage d2) ''bar'' = Some {''bar{id:1}'', ''bar/regex-pattern{id:1}''} \<and>
      snd (db_Invalidate (\<lambda>ks. [''bar{id:1}''])
             (fst (db_Invalidate (\<lambda>ks. [''bar{id:1}'']) d2 [''bar{name:bar1}''])) [''bar'']) = [] \<and>
      Collection_Invalidate (\<lambda>ks. [''bar{id:1}'']) (\<lambda>item. Any (snd item)) ex_bar
        (fst (db_Invalidate (\<lambda>ks. [''bar{id:1}'']) d2 [''bar{name:bar1}''])) = Inr d4 \<and>
      db_Get d4 ''bar/regex-pattern{id:1}'' = (Any ''a'', True) \<and>
      Derive Any ex_unbox ex_bar ''regex-pattern'' ex_pattern d4 (''1'', ''b'') 1
        = Inr (Inr ''a'', d4, 1))"
proof -
  let ?rng = "\<lambda>ks :: string set. [''bar{id:1}'']"
  let ?box = "\<lambda>item :: string \<times> string. Any (snd item)"
  let ?ref = "\<lambda>item :: string \<times> string. [fst item]"
  let ?K = "''bar/regex-pattern{id:1}''"
  have K: "Derive_key ex_bar ''regex-pattern'' [''1''] = ?K"
    by (simp add: Derive_key_single mkKey_parts)
  obtain d1 where 1: "Collection_Invalidate ?rng ?box ex_bar NewDB = Inr d1" and i1: "idle d1"
    and s1: "storage d1 = storage (db_Tag (db_Put NewDB ''bar{id:1}'' (Any ''a'')) ''bar{id:1}''
                             [''bar'', ''bar{name:bar1}''])"
    using ex_bar_loaded [of ?rng] by (elim exE conjE)
  have S1: "storage d1 =
     \<lparr>tagToKeys = (\<lambda>tag. if tag \<in> {''bar'', ''bar{name:bar1}''} then Some {''bar{id:1}''} else None),
      keyToTags = [''bar{id:1}'' \<mapsto> {''bar'', ''bar{name:bar1}''}],
      items = [''bar{id:1}'' \<mapsto> Any ''a'']\<rparr>"
    by (simp add: s1 db_Tag_storage db_Put_storage emptyStorage_def cong: if_cong)
  have m1: "snd (db_Get d1 (Derive_key ex_bar ''regex-pattern'' (?ref (''1'', ''a'')))) = False"
    by (simp add: K db_Get_def cacheView_Get_def S1)
  have f: "ex_pattern (''1'', ''a'') 0 = ((''a'', None), 1)"
    by (simp add: ex_pattern_def)
  have u: "ex_unbox (Any ''a'') = Some ''a''"
    by (simp add: ex_unbox_def)
  from Derive_fills [where box = Any and unbox = ex_unbox and col = ex_bar
      and name = "''regex-pattern''" and fn = ex_pattern and d = d1 and inp = "(''1'', ''a'')"
      and w = 0 and wa = 1 and out = "''a''", OF i1 ex_bar_simps(2) m1 f u]
  obtain d2 where 2: "Derive Any ex_unbox ex_bar ''regex-pattern'' ex_pattern d1 (''1'', ''a'') 0
        = Inr (Inr ''a'', d2, 1)" and i2: "idle d2"
    and s2: "storage d2 = storage (db_Tag (db_Put d1 ?K (Any ''a'')) ?K [''bar''])"
    by (simp add: K) (elim exE conjE)
  have S2: "storage d2 =
     \<lparr>tagToKeys = (\<lambda>tag. if tag = ''bar'' then Some {?K, ''bar{id:1}''}
                          else if tag = ''bar{name:bar1}'' then Some {''bar{id:1}''} else None),
      keyToTags = [''bar{id:1}'' \<mapsto> {''bar'', ''bar{name:bar1}''}, ?K \<mapsto> {''bar''}],
      items = [''bar{id:1}'' \<mapsto> Any ''a'', ?K \<mapsto> Any ''a'']\<rparr>"
    by (simp add: s2 db_Tag_storage db_Put_storage i1 S1 fun_eq_iff)
  have g2: "db_Get d2 ?K = (Any ''a'', True)"
    by (simp add: db_Get_def cacheView_Get_def S2)
  have t2: "tagToKeys (storage d2) ''bar'' = Some {''bar{id:1}'', ?K}"
    by (auto simp: S2)
  let ?d3 = "fst (db_Invalidate ?rng d2 [''bar{name:bar1}''])"
  have n2: "tagToKeys (storage d2) ''bar{name:bar1}'' = Some {''bar{id:1}''}"
    by (simp add: S2)
  have e: "set (?rng {''bar{id:1}''}) = {''bar{id:1}''}" by simp
  note r = db_Invalidate_one [where rng = ?rng, OF i2 n2 e]
  have i3: "idle ?d3" by simp
  have t3: "tagToKeys (storage ?d3) ''bar'' = None"
    by (simp add: r(2) S2 restrict_map_def)
  have k3: "items (storage ?d3) ?K = Some (Any ''a'')"
    by (simp add: r(1) S2 restrict_map_def)
  have 3: "snd (db_Invalidate ?rng ?d3 [''bar'']) = []"
    by (rule db_Invalidate_absent(1) [OF i3 t3])
  obtain d4 where 4: "Collection_Invalidate ?rng ?box ex_bar ?d3 = Inr d4"
    using ex_bar_Invalidate [of ?rng ?d3] by (elim exE)
  have nk: "?K \<notin> range (mkKey (kind ex_bar) (idx_key (pk ex_bar)))"
    unfolding K [symmetric] by (rule Derive_key_not_item_key)
  have la: "\<forall>infer\<in>set (inferences ex_bar). leaves_alone ?K infer"
    by simp
  have t3': "tagToKeys (storage ?d3) (kind ex_bar) = None"
    using t3 by simp
  note kp = Collection_Invalidate_keeps [where rng = ?rng, OF i3 t3' nk la 4]
  have g4: "db_Get d4 ?K = (Any ''a'', True)"
    by (simp add: db_Get_def cacheView_Get_def kp(1) k3)
  have g4': "db_Get d4 (Derive_key ex_bar ''regex-pattern'' (?ref (''1'', ''b''))) = (Any ''a'', True)"
    using g4 by (simp add: K)
  have 5: "Derive Any ex_unbox ex_bar ''regex-pattern'' ex_pattern d4 (''1'', ''b'') 1
        = Inr (Inr ''a'', d4, 1)"
    using Derive_hit [OF ex_bar_simps(2) g4', of Any ex_unbox ex_pattern 1] by (simp add: u)
  from 1 2 g2 t2 3 4 g4 5 have "\<exists>d1 d2 d4.
      Collection_Invalidate ?rng ?box ex_bar NewDB = Inr d1 \<and>
      Derive Any ex_unbox ex_bar ''regex-pattern'' ex_pattern d1 (''1'', ''a'') 0
        = Inr (Inr ''a'', d2, 1) \<and>
      db_Get d2 ?K = (Any ''a'', True) \<and>
      tagToKeys (storage d2) ''bar'' = Some {''bar{id:1}'', ?K} \<and>
      snd (db_Invalidate ?rng (fst (db_Invalidate ?rng d2 [''bar{name:bar1}''])) [''bar'']) = [] \<and>
      Collection_Invalidate ?rng ?box ex_bar
        (fst (db_Invalidate ?rng d2 [''bar{name:bar1}''])) = Inr d4 \<and>
      db_Get d4 ?K = (Any ''a'', True) \<and>
      Derive Any ex_unbox ex_bar ''regex-pattern'' ex_pattern d4 (''1'', ''b'') 1
        = Inr (Inr ''a'', d4, 1)"
    by - (rule exI [of _ d1], rule exI [of _ d2], rule exI [of _ d4], intro conjI, assumption+)
  with K show ?thesis by (rule conjI)
qed

end
